theory Spec2Isabelle
  imports Complex_Main
begin

section \<open>Strings\<close>

text \<open>
  A JavaScript string is a sequence of UTF-16 code units. A code unit is modelled as a
  natural number, a string as the list of its code units, so that \<open>length\<close> is the
  \<^verbatim>\<open>.length\<close> of the source. \<open>ascii\<close> writes an ASCII literal.
\<close>

type_synonym jstring = "nat list"

definition ascii :: "string \<Rightarrow> jstring" where
  "ascii s = map of_char s"

text \<open>
  \<^verbatim>\<open>String.prototype.slice(a, b)\<close>: a negative index counts from the end, every index
  is clamped to the string, and an empty string comes back when the end is not after the
  start. \<^verbatim>\<open>slice(a)\<close> runs to the end of the string.
\<close>

definition slice_index :: "int \<Rightarrow> int \<Rightarrow> int" where
  "slice_index len i = (if i < 0 then max (len + i) 0 else min i len)"

definition js_slice :: "jstring \<Rightarrow> int \<Rightarrow> int \<Rightarrow> jstring" where
  "js_slice s a b =
     (let len = int (length s); from = slice_index len a; to = slice_index len b
      in take (nat (to - from)) (drop (nat from) s))"

definition js_slice_from :: "jstring \<Rightarrow> int \<Rightarrow> jstring" where
  "js_slice_from s a = js_slice s a (int (length s))"

section \<open>The highlight resolver (highlight.ts)\<close>

text \<open>
  \<^verbatim>\<open>FuseResultMatch\<close> of types.ts: an optional key, the inclusive index pairs and an
  optional value. The pairs are numbers in the source; they are integers here, so that
  the negative ones are inputs too.
\<close>

record FuseResultMatch =
  m_key :: "jstring option"
  m_indices :: "(int \<times> int) list"
  m_value :: "jstring option"

record HighlightSegment =
  seg_text :: jstring
  highlighted :: bool

text \<open>
  \<^verbatim>\<open>mergeIndices\<close>. The source sorts a copy of the pairs by their start (the comparator
  is \<^verbatim>\<open>a[0] - b[0]\<close>, and \<^verbatim>\<open>Array.prototype.sort\<close> is stable, as \<open>sort_key\<close> is), then
  walks the sorted pairs with the array \<^verbatim>\<open>merged\<close>: a pair that starts at most one past
  the end of the last merged pair extends that pair, any other pair is pushed.
  \<open>merge_step\<close> is one turn of that loop; the write to \<^verbatim>\<open>last[1]\<close> is the replacement of
  the last element. (The pair written to is shared with the array passed in; the loop has
  read it before it writes to it, so the value of one call is the one computed here.)
\<close>

fun merge_step :: "(int \<times> int) list \<Rightarrow> int \<times> int \<Rightarrow> (int \<times> int) list" where
  "merge_step merged (start, end) =
     (if merged \<noteq> [] \<and> start \<le> snd (last merged) + 1
      then butlast merged @ [(fst (last merged), max (snd (last merged)) end)]
      else merged @ [(start, end)])"

definition mergeIndices :: "(int \<times> int) list \<Rightarrow> (int \<times> int) list" where
  "mergeIndices indices = foldl merge_step [] (sort_key fst indices)"

text \<open>
  The emission loop of \<^verbatim>\<open>getHighlightSegments\<close> with its variable \<^verbatim>\<open>lastIndex\<close>, followed
  by the push of the text after the last pair.
\<close>

fun emit_segments :: "jstring \<Rightarrow> int \<Rightarrow> (int \<times> int) list \<Rightarrow> HighlightSegment list" where
  "emit_segments txt lastIndex [] =
     (if lastIndex < int (length txt)
      then [\<lparr>seg_text = js_slice_from txt lastIndex, highlighted = False\<rparr>] else [])"
| "emit_segments txt lastIndex ((start, end) # rest) =
     (if start > lastIndex
      then [\<lparr>seg_text = js_slice txt lastIndex start, highlighted = False\<rparr>] else [])
     @ \<lparr>seg_text = js_slice txt start (end + 1), highlighted = True\<rparr>
     # emit_segments txt (end + 1) rest"

text \<open>
  \<^verbatim>\<open>matches.find((m) => m.key === key)\<close>: the first match whose key is present and
  equal to the requested one.
\<close>

definition find_field :: "FuseResultMatch list \<Rightarrow> jstring \<Rightarrow> FuseResultMatch option" where
  "find_field matches k = find (\<lambda>m. m_key m = Some k) matches"

text \<open>
  \<^verbatim>\<open>getHighlightSegments(text, matches, key)\<close>. \<^verbatim>\<open>matches\<close> may be undefined (\<open>None\<close>);
  an empty array and an empty text take the first early return, a missing field match
  or one without pairs the second.
\<close>

definition getHighlightSegments ::
  "jstring \<Rightarrow> FuseResultMatch list option \<Rightarrow> jstring \<Rightarrow> HighlightSegment list" where
  "getHighlightSegments txt matches k =
     (case matches of
        None \<Rightarrow> [\<lparr>seg_text = txt, highlighted = False\<rparr>]
      | Some ms \<Rightarrow>
          if ms = [] \<or> txt = [] then [\<lparr>seg_text = txt, highlighted = False\<rparr>]
          else (case find_field ms k of
                  None \<Rightarrow> [\<lparr>seg_text = txt, highlighted = False\<rparr>]
                | Some fieldMatch \<Rightarrow>
                    if m_indices fieldMatch = [] then [\<lparr>seg_text = txt, highlighted = False\<rparr>]
                    else emit_segments txt 0 (mergeIndices (m_indices fieldMatch))))"

text \<open>
  A span is valid for a text when it lies inside it: \<open>0 \<le> start \<le> end < length\<close>.
\<close>

definition valid_span :: "jstring \<Rightarrow> int \<times> int \<Rightarrow> bool" where
  "valid_span txt sp = (0 \<le> fst sp \<and> fst sp \<le> snd sp \<and> snd sp < int (length txt))"

text \<open>The number of characters lying strictly between a span and a later one.\<close>

definition span_gap :: "int \<times> int \<Rightarrow> int \<times> int \<Rightarrow> int" where
  "span_gap a b = fst b - snd a - 1"

text \<open>
  The matches handed to the resolver are valid for a text when every span of every match
  is; an undefined \<^verbatim>\<open>matches\<close> has no span.
\<close>

definition valid_matches :: "jstring \<Rightarrow> FuseResultMatch list option \<Rightarrow> bool" where
  "valid_matches txt matches =
     (case matches of None \<Rightarrow> True
      | Some ms \<Rightarrow> list_all (\<lambda>m. list_all (valid_span txt) (m_indices m)) ms)"

text \<open>
  What may follow a segment in the output: a highlighted segment is followed, if at all,
  by a segment that is not highlighted and not empty.
\<close>

definition after_highlight :: "HighlightSegment \<Rightarrow> HighlightSegment \<Rightarrow> bool" where
  "after_highlight x y = (highlighted x \<longrightarrow> \<not> highlighted y \<and> seg_text y \<noteq> [])"

text \<open>
  A position of the text is covered by a list of spans when it lies in one of them.
\<close>

definition covered :: "(int \<times> int) list \<Rightarrow> int \<Rightarrow> bool" where
  "covered spans i = list_ex (\<lambda>p. fst p \<le> i \<and> i \<le> snd p) spans"

text \<open>
  The output read character by character: for each character of each segment, in order,
  whether its segment is highlighted.
\<close>

definition marks :: "HighlightSegment list \<Rightarrow> bool list" where
  "marks segs = concat (map (\<lambda>s. replicate (length (seg_text s)) (highlighted s)) segs)"

text \<open>The spans of the requested field: those of the match that the resolver selects.\<close>

definition field_spans :: "FuseResultMatch list \<Rightarrow> jstring \<Rightarrow> (int \<times> int) list" where
  "field_spans ms k = (case find_field ms k of None \<Rightarrow> [] | Some fieldMatch \<Rightarrow> m_indices fieldMatch)"

text \<open>The highlighted segment that the emission loop pushes for a span.\<close>

definition span_segment :: "jstring \<Rightarrow> int \<times> int \<Rightarrow> HighlightSegment" where
  "span_segment txt g = \<lparr>seg_text = js_slice txt (fst g) (snd g + 1), highlighted = True\<rparr>"

text \<open>
  The merge loop read from the left: the pair being grown and the pairs still to come.
  It serves the proofs only; \<open>foldl_merge_step\<close> below ties it to the loop.
\<close>

fun merge_run :: "int \<times> int \<Rightarrow> (int \<times> int) list \<Rightarrow> (int \<times> int) list" where
  "merge_run l [] = [l]"
| "merge_run l (p # ps) =
     (if fst p \<le> snd l + 1 then merge_run (fst l, max (snd l) (snd p)) ps
      else l # merge_run p ps)"

section \<open>The fuzzy search hook (use-fuzzy-search.ts)\<close>

subsection \<open>Values\<close>

text \<open>
  \<^verbatim>\<open>String.prototype.trim\<close> removes the white space and the line terminators of
  ECMAScript from both ends of a string.
\<close>

definition is_white_space :: "nat \<Rightarrow> bool" where
  "is_white_space c =
     (c \<in> {9, 10, 11, 12, 13, 32, 160, 5760, 8232, 8233, 8239, 8287, 12288, 65279}
      \<or> (8192 \<le> c \<and> c \<le> 8202))"

definition js_trim :: "jstring \<Rightarrow> jstring" where
  "js_trim s = rev (dropWhile is_white_space (rev (dropWhile is_white_space s)))"

text \<open>
  An array is an object: it has an identity besides its elements, and the dependency
  lists of React compare arrays by identity (\<^verbatim>\<open>Object.is\<close>). \<open>Ref a xs\<close> is the array at
  address \<open>a\<close> with the elements \<open>xs\<close>.
\<close>

datatype 'a ref = Ref (addr: nat) (content: 'a)

record FuseOptionKey =
  k_name :: jstring
  k_weight :: real

text \<open>\<^verbatim>\<open>UseFuzzySearchOptions\<close> of types.ts; every field is optional.\<close>

record UseFuzzySearchOptions =
  opt_threshold :: "real option"
  opt_debounceMs :: "int option"
  opt_minChars :: "int option"
  opt_returnFuzzyMeta :: "bool option"

text \<open>The defaults of the destructuring at the head of the hook.\<close>

definition threshold_of :: "UseFuzzySearchOptions \<Rightarrow> real" where
  "threshold_of opts = (case opt_threshold opts of None \<Rightarrow> 0.35 | Some t \<Rightarrow> t)"

definition debounceMs_of :: "UseFuzzySearchOptions \<Rightarrow> int" where
  "debounceMs_of opts = (case opt_debounceMs opts of None \<Rightarrow> 200 | Some d \<Rightarrow> d)"

definition minChars_of :: "UseFuzzySearchOptions \<Rightarrow> int" where
  "minChars_of opts = (case opt_minChars opts of None \<Rightarrow> 2 | Some n \<Rightarrow> n)"

text \<open>
  The options object handed to the constructor of Fuse: \<^verbatim>\<open>BASE_FUSE_OPTIONS\<close> of
  fuse-config.ts, spread, with the keys and the threshold of the call.
\<close>

record FuseOptions =
  includeScore :: bool
  includeMatches :: bool
  ignoreDiacritics :: bool
  ignoreLocation :: bool
  minMatchCharLength :: int
  shouldSort :: bool
  fo_keys :: "FuseOptionKey list"
  fo_threshold :: real

definition fuse_options :: "FuseOptionKey list \<Rightarrow> real \<Rightarrow> FuseOptions" where
  "fuse_options ks th =
     \<lparr>includeScore = True, includeMatches = True, ignoreDiacritics = True,
      ignoreLocation = True, minMatchCharLength = 2, shouldSort = True,
      fo_keys = ks, fo_threshold = th\<rparr>"

text \<open>
  A result of \<^verbatim>\<open>fuse.search\<close>: the item, a score that may be missing, the matches that may
  be missing. \<^verbatim>\<open>FuzzyResult\<close> of types.ts is what the hook makes of it.
\<close>

record 'a FuseResult =
  r_item :: 'a
  r_score :: "real option"
  r_matches :: "FuseResultMatch list option"

record 'a FuzzyResult =
  item :: 'a
  score :: real
  matches :: "FuseResultMatch list option"
  isFuzzy :: bool

text \<open>
  fuse.js is not part of the repository. The hook uses two things of it: the constructor,
  which returns an index or throws, and \<^verbatim>\<open>search\<close>. Both are parameters of the model.
\<close>

record ('a, 'idx) Fuse_lib =
  new_Fuse :: "'a list \<Rightarrow> FuseOptions \<Rightarrow> string + 'idx"
  search :: "'idx \<Rightarrow> jstring \<Rightarrow> 'a FuseResult list"

subsection \<open>The debounce: state, effect and timers\<close>

text \<open>
  A pending \<^verbatim>\<open>setTimeout\<close>: its identifier, the time at which it fires and the trimmed
  query that its callback has captured.
\<close>

record timer =
  t_id :: nat
  t_due :: nat
  t_query :: jstring

text \<open>
  The state of the hook that the debounce uses: the two \<^verbatim>\<open>useState\<close> cells, the
  \<^verbatim>\<open>useRef\<close> cell, what React keeps of the last run of the effect (its dependencies
  \<^verbatim>\<open>[query, debounceMs, minChars]\<close> and whether it returned a cleanup function), and the
  timers of the environment with its clock in milliseconds. \<open>commits\<close> records every call
  of \<^verbatim>\<open>setDebouncedQuery\<close>.
\<close>

record controller =
  debouncedQuery :: jstring
  isSearching :: bool
  timerRef :: "nat option"
  effect_deps :: "jstring \<times> int \<times> int"
  has_cleanup :: bool
  clock :: nat
  timers :: "timer list"
  next_id :: nat
  commits :: "jstring list"

definition clearTimeout :: "nat \<Rightarrow> timer list \<Rightarrow> timer list" where
  "clearTimeout i ts = filter (\<lambda>t. t_id t \<noteq> i) ts"

text \<open>
  The cleanup function \<^verbatim>\<open>() => { if (timerRef.current) clearTimeout(timerRef.current) }\<close>:
  it reads the cell when it runs; an undefined cell and the identifier 0 are falsy.
\<close>

definition cleanup :: "controller \<Rightarrow> controller" where
  "cleanup c =
     (case timerRef c of
        None \<Rightarrow> c
      | Some i \<Rightarrow> if i = 0 then c else c\<lparr>timers := clearTimeout i (timers c)\<rparr>)"

text \<open>
  The body of the effect. With a trimmed query that is not empty and shorter than
  \<^verbatim>\<open>minChars\<close> it returns at once, and returns no cleanup. Otherwise it sets the flag,
  starts a timer of \<^verbatim>\<open>debounceMs\<close> (a negative delay counts as 0) whose callback holds
  the trimmed query, stores the identifier in the cell and returns the cleanup.
\<close>

definition effect :: "jstring \<Rightarrow> int \<Rightarrow> int \<Rightarrow> controller \<Rightarrow> controller" where
  "effect query debounceMs minChars c =
     (let q = js_trim query in
      if int (length q) > 0 \<and> int (length q) < minChars
      then c\<lparr>has_cleanup := False\<rparr>
      else c\<lparr>isSearching := True,
             timerRef := Some (next_id c),
             timers := timers c @ [\<lparr>t_id = next_id c, t_due = clock c + nat debounceMs, t_query = q\<rparr>],
             next_id := Suc (next_id c),
             has_cleanup := True\<rparr>)"

text \<open>
  What React does with the effect after a render: nothing when the dependencies are the
  ones of the last run; otherwise the cleanup of the last run, if it returned one, and
  then the body.
\<close>

definition commit_effect :: "jstring \<Rightarrow> int \<Rightarrow> int \<Rightarrow> controller \<Rightarrow> controller" where
  "commit_effect query debounceMs minChars c =
     (if effect_deps c = (query, debounceMs, minChars) then c
      else effect query debounceMs minChars
             ((if has_cleanup c then cleanup c else c)\<lparr>effect_deps := (query, debounceMs, minChars)\<rparr>))"

text \<open>
  The first render: \<^verbatim>\<open>useState(query)\<close>, \<^verbatim>\<open>useState(false)\<close>, an empty cell, and the
  effect runs. Timer identifiers are positive, as in a browser.
\<close>

definition mount_controller :: "jstring \<Rightarrow> int \<Rightarrow> int \<Rightarrow> controller" where
  "mount_controller query debounceMs minChars =
     effect query debounceMs minChars
       \<lparr>debouncedQuery = query, isSearching = False, timerRef = None,
        effect_deps = (query, debounceMs, minChars), has_cleanup = False,
        clock = 0, timers = [], next_id = 1, commits = []\<rparr>"

text \<open>
  The callback of a timer: \<^verbatim>\<open>setDebouncedQuery(q); setIsSearching(false)\<close>.
\<close>

definition fire :: "controller \<Rightarrow> timer \<Rightarrow> controller" where
  "fire c t = c\<lparr>debouncedQuery := t_query t, isSearching := False,
               commits := commits c @ [t_query t]\<rparr>"

text \<open>
  \<open>d\<close> milliseconds pass: the timers that are due by then fire, the earliest first, and
  are no longer pending.
\<close>

definition is_due :: "nat \<Rightarrow> timer \<Rightarrow> bool" where
  "is_due now t = (t_due t \<le> now)"

definition advance :: "nat \<Rightarrow> controller \<Rightarrow> controller" where
  "advance d c =
     (let now = clock c + d in
      foldl fire (c\<lparr>clock := now, timers := filter (\<lambda>t. \<not> is_due now t) (timers c)\<rparr>)
        (sort_key t_due (filter (is_due now) (timers c))))"

text \<open>
  The events of the debounce: the hook is rendered with a raw query, or time passes. The
  options \<^verbatim>\<open>debounceMs\<close> and \<^verbatim>\<open>minChars\<close> are those of the call.
\<close>

datatype event = Render jstring | Advance nat

fun ctrl_step :: "int \<Rightarrow> int \<Rightarrow> controller \<Rightarrow> event \<Rightarrow> controller" where
  "ctrl_step debounceMs minChars c (Render query) = commit_effect query debounceMs minChars c"
| "ctrl_step debounceMs minChars c (Advance d) = advance d c"

definition ctrl_run :: "int \<Rightarrow> int \<Rightarrow> event list \<Rightarrow> controller \<Rightarrow> controller" where
  "ctrl_run debounceMs minChars evs c = foldl (ctrl_step debounceMs minChars) c evs"

text \<open>
  The test at the head of the effect: the trimmed query is not empty and shorter than
  \<^verbatim>\<open>minChars\<close>.
\<close>

definition suspended :: "jstring \<Rightarrow> int \<Rightarrow> bool" where
  "suspended q minChars = (int (length (js_trim q)) > 0 \<and> int (length (js_trim q)) < minChars)"

text \<open>
  What holds of the debounce in every state that the hook reaches (\<open>ctrl_inv_mount\<close>,
  \<open>ctrl_inv_step\<close>): timer identifiers are positive; the last run of the effect returned a
  cleanup exactly when its query was not suspended; and at most one timer is pending,
  the one named by the cell, which the cleanup of the last run will clear.
\<close>

definition ctrl_inv :: "controller \<Rightarrow> bool" where
  "ctrl_inv c =
     (0 < next_id c
      \<and> has_cleanup c = (\<not> suspended (fst (effect_deps c)) (snd (snd (effect_deps c))))
      \<and> (case timers c of
            [] \<Rightarrow> True
          | [t] \<Rightarrow> has_cleanup c \<and> timerRef c = Some (t_id t) \<and> t_id t \<noteq> 0 \<and> t_id t < next_id c
          | _ \<Rightarrow> False))"

text \<open>
  An event that leaves the raw query at \<open>q\<close>: time passes, or the hook is rendered with
  \<open>q\<close> again.
\<close>

fun keeps_input :: "jstring \<Rightarrow> event \<Rightarrow> bool" where
  "keeps_input q (Render q') = (q' = q)"
| "keeps_input q (Advance d) = True"

text \<open>
  A sequence of updates of the raw query, each followed by the time that passes before
  the next one (after the last update: the time that passes after it).
\<close>

fun burst :: "(jstring \<times> nat) list \<Rightarrow> event list" where
  "burst [] = []"
| "burst ((q, d) # us) = Render q # Advance d # burst us"

subsection \<open>The index and the results: the two memo cells\<close>

record 'a props =
  items :: "'a list ref"
  query :: jstring
  keys :: "FuseOptionKey list ref"
  options :: UseFuzzySearchOptions

text \<open>
  The two \<^verbatim>\<open>useMemo\<close> cells, each with the dependencies of its last computation. A Fuse
  instance is an object: its identity is the number of the construction that made it.
  \<open>builds\<close> counts the constructions, \<open>searches\<close> records the queries sent to
  \<^verbatim>\<open>fuse.search\<close>.
\<close>

record ('a, 'idx) memos =
  fuse_memo_deps :: "nat \<times> nat \<times> real"
  fuse_memo :: "nat \<times> 'idx"
  results_memo_deps :: "nat \<times> jstring \<times> nat \<times> int"
  results_memo :: "'a FuzzyResult list"
  builds :: nat
  searches :: "jstring list"

definition fuse_deps_of :: "'a props \<Rightarrow> nat \<times> nat \<times> real" where
  "fuse_deps_of p = (addr (items p), addr (keys p), threshold_of (options p))"

text \<open>
  The first cell, \<^verbatim>\<open>useMemo(() => new Fuse(items, {...}), [items, keys, threshold])\<close>,
  on a render after the first. An exception of the constructor leaves the render.
\<close>

definition use_fuse ::
  "('a, 'idx) Fuse_lib \<Rightarrow> 'a props \<Rightarrow> ('a, 'idx) memos \<Rightarrow> string + ('a, 'idx) memos" where
  "use_fuse lib p m =
     (if fuse_memo_deps m = fuse_deps_of p then Inr m
      else (case new_Fuse lib (content (items p))
                   (fuse_options (content (keys p)) (threshold_of (options p))) of
              Inl e \<Rightarrow> Inl e
            | Inr idx \<Rightarrow>
                Inr (m\<lparr>fuse_memo_deps := fuse_deps_of p,
                       fuse_memo := (Suc (builds m), idx),
                       builds := Suc (builds m)\<rparr>)))"

text \<open>
  The callback of the second cell. It returns the scored results and, beside them, the
  queries it has sent to the index.
\<close>

definition unranked :: "'a \<Rightarrow> 'a FuzzyResult" where
  "unranked x = \<lparr>item = x, score = 0, matches = None, isFuzzy = False\<rparr>"

definition scored :: "'a FuseResult \<Rightarrow> 'a FuzzyResult" where
  "scored r =
     \<lparr>item = r_item r,
      score = (case r_score r of None \<Rightarrow> 1 | Some s \<Rightarrow> s),
      matches = r_matches r,
      isFuzzy = ((case r_score r of None \<Rightarrow> 1 | Some s \<Rightarrow> s) > 0.05)\<rparr>"

definition compute_results ::
  "('a, 'idx) Fuse_lib \<Rightarrow> 'idx \<Rightarrow> 'a list \<Rightarrow> jstring \<Rightarrow> int \<Rightarrow> 'a FuzzyResult list \<times> jstring list" where
  "compute_results lib fuse its dq minChars =
     (let q = js_trim dq in
      if q = [] then (map unranked its, [])
      else if int (length q) < minChars then (map unranked its, [])
      else (map scored (search lib fuse q), [q]))"

definition results_deps_of :: "('a, 'idx) memos \<Rightarrow> 'a props \<Rightarrow> jstring \<Rightarrow> nat \<times> jstring \<times> nat \<times> int" where
  "results_deps_of m p dq = (fst (fuse_memo m), dq, addr (items p), minChars_of (options p))"

definition use_results ::
  "('a, 'idx) Fuse_lib \<Rightarrow> 'a props \<Rightarrow> jstring \<Rightarrow> ('a, 'idx) memos \<Rightarrow> ('a, 'idx) memos" where
  "use_results lib p dq m =
     (if results_memo_deps m = results_deps_of m p dq then m
      else (let (rs, qs) = compute_results lib (snd (fuse_memo m)) (content (items p)) dq
                             (minChars_of (options p))
            in m\<lparr>results_memo_deps := results_deps_of m p dq,
                 results_memo := rs,
                 searches := searches m @ qs\<rparr>))"

subsection \<open>The hook\<close>

text \<open>
  An instance of the hook: the debounce, the memo cells and the arguments of the last
  render.
\<close>

record ('a, 'idx) hook =
  ctrl :: controller
  memo :: "('a, 'idx) memos"
  last_props :: "'a props"

text \<open>
  A render after the first, with the effect that follows it; the effect is taken to run
  with its render, before any timer fires. The render that \<^verbatim>\<open>setIsSearching(true)\<close> asks
  for has the same arguments and the same committed query: it finds both cells and the
  effect up to date, see \<open>useFuzzySearch_again\<close> and \<open>useFuzzySearch_mount_again\<close>.
\<close>

definition useFuzzySearch ::
  "('a, 'idx) Fuse_lib \<Rightarrow> 'a props \<Rightarrow> ('a, 'idx) hook \<Rightarrow> string + ('a, 'idx) hook" where
  "useFuzzySearch lib p h =
     (case use_fuse lib p (memo h) of
        Inl e \<Rightarrow> Inl e
      | Inr m \<Rightarrow>
          Inr \<lparr>ctrl = commit_effect (query p) (debounceMs_of (options p)) (minChars_of (options p))
                        (ctrl h),
               memo = use_results lib p (debouncedQuery (ctrl h)) m,
               last_props = p\<rparr>)"

text \<open>The first render: both cells are computed, the committed query is the raw one.\<close>

definition useFuzzySearch_mount ::
  "('a, 'idx) Fuse_lib \<Rightarrow> 'a props \<Rightarrow> string + ('a, 'idx) hook" where
  "useFuzzySearch_mount lib p =
     (case new_Fuse lib (content (items p))
             (fuse_options (content (keys p)) (threshold_of (options p))) of
        Inl e \<Rightarrow> Inl e
      | Inr idx \<Rightarrow>
          (let (rs, qs) = compute_results lib idx (content (items p)) (query p)
                            (minChars_of (options p))
           in Inr \<lparr>ctrl = mount_controller (query p) (debounceMs_of (options p))
                            (minChars_of (options p)),
                   memo = \<lparr>fuse_memo_deps = fuse_deps_of p, fuse_memo = (1, idx),
                           results_memo_deps = (1, query p, addr (items p), minChars_of (options p)),
                           results_memo = rs, builds = 1, searches = qs\<rparr>,
                   last_props = p\<rparr>))"

text \<open>
  Time passes: the due timers fire, and the state they have set is rendered with the
  arguments of the last render.
\<close>

definition hook_advance ::
  "('a, 'idx) Fuse_lib \<Rightarrow> nat \<Rightarrow> ('a, 'idx) hook \<Rightarrow> string + ('a, 'idx) hook" where
  "hook_advance lib d h = useFuzzySearch lib (last_props h) (h\<lparr>ctrl := advance d (ctrl h)\<rparr>)"

datatype 'a hook_event = Rerender "'a props" | Wait nat

fun hook_step ::
  "('a, 'idx) Fuse_lib \<Rightarrow> ('a, 'idx) hook \<Rightarrow> 'a hook_event \<Rightarrow> string + ('a, 'idx) hook" where
  "hook_step lib h (Rerender p) = useFuzzySearch lib p h"
| "hook_step lib h (Wait d) = hook_advance lib d h"

fun hook_run ::
  "('a, 'idx) Fuse_lib \<Rightarrow> 'a hook_event list \<Rightarrow> ('a, 'idx) hook \<Rightarrow> string + ('a, 'idx) hook" where
  "hook_run lib [] h = Inr h"
| "hook_run lib (e # es) h =
     (case hook_step lib h e of Inl err \<Rightarrow> Inl err | Inr h' \<Rightarrow> hook_run lib es h')"

text \<open>What the hook returns from a render.\<close>

record 'a hook_result =
  out_results :: "'a list"
  out_fuzzyResults :: "'a FuzzyResult list"
  out_isSearching :: bool
  out_isFuzzyMode :: bool
  out_debouncedQuery :: jstring

definition hook_output :: "('a, 'idx) hook \<Rightarrow> 'a hook_result" where
  "hook_output h =
     (let fuzzyResults = results_memo (memo h);
          dq = debouncedQuery (ctrl h)
      in \<lparr>out_results = map item fuzzyResults,
          out_fuzzyResults = fuzzyResults,
          out_isSearching = isSearching (ctrl h),
          out_isFuzzyMode =
            (int (length (js_trim dq)) \<ge> minChars_of (options (last_props h))
             \<and> length fuzzyResults > 0 \<and> list_ex isFuzzy fuzzyResults),
          out_debouncedQuery = dq\<rparr>)"

text \<open>
  A small stand-in for fuse.js, for concrete evaluations only. Its constructor accepts
  every configuration and keeps the documents; its search returns the documents that
  begin with the query, with the score 0 for the document that is the query and 0.2 for
  the others.
\<close>

definition demo_lib :: "(jstring, jstring list) Fuse_lib" where
  "demo_lib =
     \<lparr>new_Fuse = (\<lambda>docs opts. Inr docs),
      search = (\<lambda>docs q.
        map (\<lambda>d. \<lparr>r_item = d, r_score = Some (if d = q then 0 else 0.2),
                  r_matches = Some [\<lparr>m_key = Some (ascii ''name''),
                                    m_indices = [(0, int (length q) - 1)],
                                    m_value = Some d\<rparr>]\<rparr>)
            (filter (\<lambda>d. take (length q) d = q) docs))\<rparr>"

subsection \<open>States, events and invariants of the hook\<close>

text \<open>
  The states of the hook: \<open>reaches lib p evs h\<close> when the first render with the arguments
  \<open>p\<close> and then the events \<open>evs\<close> go through without an exception and leave the hook in
  the state \<open>h\<close>.
\<close>

definition reaches ::
  "('a, 'idx) Fuse_lib \<Rightarrow> 'a props \<Rightarrow> 'a hook_event list \<Rightarrow> ('a, 'idx) hook \<Rightarrow> bool" where
  "reaches lib p evs h =
     (case useFuzzySearch_mount lib p of
        Inl e \<Rightarrow> False
      | Inr h0 \<Rightarrow> hook_run lib evs h0 = Inr h)"

text \<open>
  An event that leaves \<^verbatim>\<open>items\<close>, \<^verbatim>\<open>keys\<close> and the threshold what they are in \<open>p\<close>: time
  passes, or the hook is rendered with the same two arrays and the same threshold and any
  raw query.
\<close>

fun same_index_inputs :: "'a props \<Rightarrow> 'a hook_event \<Rightarrow> bool" where
  "same_index_inputs p (Rerender p') = (fuse_deps_of p' = fuse_deps_of p)"
| "same_index_inputs p (Wait d) = True"

text \<open>The flag of every scored result says that its score is above the cutoff 0.05.\<close>

definition flags_ok :: "'a FuzzyResult list \<Rightarrow> bool" where
  "flags_ok rs = list_all (\<lambda>r. isFuzzy r = (0.05 < score r)) rs"

text \<open>The first cell holds the index of the arguments of the last render.\<close>

definition index_current :: "('a, 'idx) hook \<Rightarrow> bool" where
  "index_current h = (fuse_memo_deps (memo h) = fuse_deps_of (last_props h))"

text \<open>
  The two tests at the head of the second cell's callback: the trimmed committed query is
  empty or shorter than \<^verbatim>\<open>minChars\<close>.
\<close>

definition short_query :: "jstring \<Rightarrow> int \<Rightarrow> bool" where
  "short_query dq minChars = (js_trim dq = [] \<or> int (length (js_trim dq)) < minChars)"

text \<open>
  Arrays are not mutated in place: whenever a render receives the array of the render
  before it (the same identity), the array has the elements it had.
\<close>

fun items_immutable :: "'a list ref \<Rightarrow> 'a hook_event list \<Rightarrow> bool" where
  "items_immutable r [] = True"
| "items_immutable r (Rerender p # es) =
     ((addr (items p) = addr r \<longrightarrow> content (items p) = content r) \<and> items_immutable (items p) es)"
| "items_immutable r (Wait d # es) = items_immutable r es"

text \<open>
  The second cell holds what its callback computes from the index, the items of the last
  render, the committed query and \<^verbatim>\<open>minChars\<close>; and the identity of the index is the
  number of constructions so far.
\<close>

definition results_current :: "('a, 'idx) Fuse_lib \<Rightarrow> ('a, 'idx) hook \<Rightarrow> bool" where
  "results_current lib h =
     (fst (fuse_memo (memo h)) = builds (memo h)
      \<and> results_memo_deps (memo h) = results_deps_of (memo h) (last_props h) (debouncedQuery (ctrl h))
      \<and> results_memo (memo h) =
          fst (compute_results lib (snd (fuse_memo (memo h))) (content (items (last_props h)))
                 (debouncedQuery (ctrl h)) (minChars_of (options (last_props h)))))"

text \<open>Arguments for concrete evaluations: three documents, one key, the threshold 0.3.\<close>

definition demo_props :: "string \<Rightarrow> jstring props" where
  "demo_props q =
     \<lparr>items = Ref 1 [ascii ''efferalgan'', ascii ''ef'', ascii ''doliprane''],
      query = ascii q,
      keys = Ref 2 [\<lparr>k_name = ascii ''name'', k_weight = 1\<rparr>],
      options = \<lparr>opt_threshold = Some 0.3, opt_debounceMs = None, opt_minChars = None,
                 opt_returnFuzzyMeta = None\<rparr>\<rparr>"

text \<open>Arguments with an empty set of keys and the threshold 0.\<close>

definition bad_config :: "jstring props" where
  "bad_config =
     \<lparr>items = Ref 1 [ascii ''ef''],
      query = ascii ''ef'',
      keys = Ref 2 [],
      options = \<lparr>opt_threshold = Some 0, opt_debounceMs = None, opt_minChars = None,
                 opt_returnFuzzyMeta = None\<rparr>\<rparr>"

text \<open>The state of the hook after a first render and some events, with the stand-in.\<close>

definition demo_state :: "string \<Rightarrow> jstring hook_event list \<Rightarrow> (jstring, jstring list) hook" where
  "demo_state q evs =
     projr (hook_run demo_lib evs (projr (useFuzzySearch_mount demo_lib (demo_props q))))"

text \<open>
  An event that leaves the arguments of the hook at \<open>p\<close>: time passes, or the hook is
  rendered with \<open>p\<close> again.
\<close>

fun keeps_props :: "'a props \<Rightarrow> 'a hook_event \<Rightarrow> bool" where
  "keeps_props p (Rerender p') = (p' = p)"
| "keeps_props p (Wait d) = True"

text \<open>What an event of the hook is for the debounce.\<close>

fun ctrl_event :: "'a hook_event \<Rightarrow> event" where
  "ctrl_event (Rerender p) = Render (query p)"
| "ctrl_event (Wait d) = Advance d"

text \<open>An event that leaves the options \<^verbatim>\<open>debounceMs\<close> and \<^verbatim>\<open>minChars\<close> what they are.\<close>

fun same_delays :: "int \<Rightarrow> int \<Rightarrow> 'a hook_event \<Rightarrow> bool" where
  "same_delays dm mc (Rerender p) = (debounceMs_of (options p) = dm \<and> minChars_of (options p) = mc)"
| "same_delays dm mc (Wait d) = True"

text \<open>
  The dependencies that React has recorded for the two cells and for the effect are
  those of the last render.
\<close>

definition deps_current :: "('a, 'idx) hook \<Rightarrow> bool" where
  "deps_current h =
     (fuse_memo_deps (memo h) = fuse_deps_of (last_props h)
      \<and> results_memo_deps (memo h) = results_deps_of (memo h) (last_props h) (debouncedQuery (ctrl h))
      \<and> effect_deps (ctrl h) =
          (query (last_props h), debounceMs_of (options (last_props h)),
           minChars_of (options (last_props h))))"

section \<open>Properties of the highlight resolver\<close>

lemma foldl_merge_step:
  "foldl merge_step (acc @ [l]) ps = acc @ merge_run l ps"
proof (induction ps arbitrary: acc l)
  case Nil
  show ?case by simp
next
  case (Cons p ps)
  obtain s e where p: "p = (s, e)" by (cases p)
  show ?case
  proof (cases "s \<le> snd l + 1")
    case True
    then have "foldl merge_step (acc @ [l]) (p # ps)
        = foldl merge_step (acc @ [(fst l, max (snd l) e)]) ps"
      by (simp add: p)
    then show ?thesis using True Cons.IH by (simp add: p)
  next
    case False
    then have "foldl merge_step (acc @ [l]) (p # ps)
        = foldl merge_step ((acc @ [l]) @ [p]) ps"
      by (simp add: p)
    then show ?thesis using False Cons.IH [of "acc @ [l]" p] by (simp add: p)
  qed
qed

lemma mergeIndices_run:
  "mergeIndices indices =
     (case sort_key fst indices of [] \<Rightarrow> [] | l # ps \<Rightarrow> merge_run l ps)"
proof (cases "sort_key fst indices")
  case Nil
  then show ?thesis by (simp add: mergeIndices_def)
next
  case (Cons l ps)
  obtain s e where l: "l = (s, e)" by (cases l)
  have "foldl merge_step [] (l # ps) = foldl merge_step ([] @ [l]) ps"
    by (simp add: l)
  then show ?thesis using Cons foldl_merge_step [of "[]" l ps]
    by (simp add: mergeIndices_def)
qed

lemma js_slice_inrange:
  "0 \<le> a \<Longrightarrow> a \<le> b \<Longrightarrow> b \<le> int (length s) \<Longrightarrow>
   js_slice s a b = take (nat (b - a)) (drop (nat a) s)"
  by (simp add: js_slice_def slice_index_def Let_def)

lemma js_slice_from_nonneg:
  "0 \<le> a \<Longrightarrow> js_slice_from s a = drop (nat a) s"
  by (auto simp add: js_slice_from_def js_slice_def slice_index_def Let_def min_def)

lemma take_drop_split:
  "a \<le> b \<Longrightarrow> take (b - a) (drop a xs) @ drop b xs = drop a xs"
proof -
  assume "a \<le> b"
  then have "drop b xs = drop (b - a) (drop a xs)" by simp
  then show ?thesis by (simp only: append_take_drop_id)
qed

lemma emit_concat:
  assumes "0 \<le> li"
    and "\<forall>p\<in>set ps. fst p \<le> snd p \<and> snd p < int (length txt)"
    and "successively (\<lambda>a b. snd a < fst b) ps"
    and "ps \<noteq> [] \<longrightarrow> li \<le> fst (hd ps)"
  shows "concat (map seg_text (emit_segments txt li ps)) = drop (nat li) txt"
  using assms
proof (induction ps arbitrary: li)
  case Nil
  then show ?case by (simp add: js_slice_from_nonneg)
next
  case (Cons p ps)
  obtain s e where p: "p = (s, e)" by (cases p)
  from Cons.prems p have b: "0 \<le> li" "li \<le> s" "s \<le> e" "e < int (length txt)"
    by auto
  have tail: "concat (map seg_text (emit_segments txt (e + 1) ps)) = drop (nat (e + 1)) txt"
  proof (rule Cons.IH)
    show "0 \<le> e + 1" using b by simp
    show "\<forall>p\<in>set ps. fst p \<le> snd p \<and> snd p < int (length txt)" using Cons.prems by simp
    show "successively (\<lambda>a b. snd a < fst b) ps" using Cons.prems(3) by (cases ps) auto
    show "ps \<noteq> [] \<longrightarrow> e + 1 \<le> fst (hd ps)" using Cons.prems(3) p by (cases ps) auto
  qed
  have mid: "js_slice txt s (e + 1) = take (nat (e + 1) - nat s) (drop (nat s) txt)"
    using b by (simp add: js_slice_inrange nat_diff_distrib)
  have pre: "js_slice txt li s = take (nat s - nat li) (drop (nat li) txt)"
    using b by (simp add: js_slice_inrange nat_diff_distrib)
  have 1: "take (nat (e + 1) - nat s) (drop (nat s) txt) @ drop (nat (e + 1)) txt = drop (nat s) txt"
    using b by (intro take_drop_split) simp
  have 2: "take (nat s - nat li) (drop (nat li) txt) @ drop (nat s) txt = drop (nat li) txt"
    using b by (intro take_drop_split) simp
  have emit: "emit_segments txt li (p # ps) =
      (if s > li then [\<lparr>seg_text = js_slice txt li s, highlighted = False\<rparr>] else [])
      @ \<lparr>seg_text = js_slice txt s (e + 1), highlighted = True\<rparr>
      # emit_segments txt (e + 1) ps"
    by (simp add: p)
  have rest: "concat (map seg_text (\<lparr>seg_text = js_slice txt s (e + 1), highlighted = True\<rparr>
      # emit_segments txt (e + 1) ps)) = drop (nat s) txt"
    by (simp add: tail mid 1)
  show ?case
  proof (cases "s > li")
    case True
    then have "concat (map seg_text (emit_segments txt li (p # ps)))
        = js_slice txt li s @ drop (nat s) txt"
      unfolding emit using rest by simp
    then show ?thesis by (simp add: pre 2)
  next
    case False
    then have "s = li" using b by simp
    then show ?thesis unfolding emit using rest by simp
  qed
qed

lemma merge_run_nonempty: "merge_run l ps \<noteq> []"
  by (induction ps arbitrary: l) auto

lemma merge_run_hd: "fst (hd (merge_run l ps)) = fst l"
  by (induction ps arbitrary: l) auto

lemma merge_run_separated:
  "successively (\<lambda>a b. snd a + 1 < fst b) (merge_run l ps)"
proof (induction ps arbitrary: l)
  case Nil
  show ?case by simp
next
  case (Cons p ps)
  show ?case
  proof (cases "fst p \<le> snd l + 1")
    case True
    then show ?thesis using Cons.IH by simp
  next
    case False
    then show ?thesis
      using Cons.IH [of p] merge_run_hd [of p ps] merge_run_nonempty [of p ps]
      by (simp add: successively_Cons)
  qed
qed

lemma merge_run_valid:
  assumes "valid_span txt l" and "\<forall>p\<in>set ps. valid_span txt p"
  shows "\<forall>m\<in>set (merge_run l ps). valid_span txt m"
  using assms
proof (induction ps arbitrary: l)
  case Nil
  then show ?case by simp
next
  case (Cons p ps)
  have p: "valid_span txt p" and ps: "\<forall>q\<in>set ps. valid_span txt q"
    using Cons.prems(2) by simp_all
  show ?case
  proof (cases "fst p \<le> snd l + 1")
    case True
    have "valid_span txt (fst l, max (snd l) (snd p))"
      using Cons.prems(1) p by (simp add: valid_span_def max_def)
    then show ?thesis using True Cons.IH ps by simp
  next
    case False
    then show ?thesis using Cons.IH [OF p ps] Cons.prems(1) by simp
  qed
qed

lemma mergeIndices_separated:
  "successively (\<lambda>a b. snd a + 1 < fst b) (mergeIndices indices)"
  by (simp add: mergeIndices_run merge_run_separated split: list.split)

lemma mergeIndices_valid:
  assumes "\<forall>p\<in>set indices. valid_span txt p"
  shows "\<forall>m\<in>set (mergeIndices indices). valid_span txt m"
proof (cases "sort_key fst indices")
  case Nil
  then show ?thesis by (simp add: mergeIndices_run)
next
  case (Cons l ps)
  have "set (l # ps) = set indices" unfolding Cons [symmetric] by simp
  then have "l \<in> set indices" and "set ps \<subseteq> set indices" by auto
  then have l: "valid_span txt l" and ps: "\<forall>p\<in>set ps. valid_span txt p"
    using assms by blast+
  have "mergeIndices indices = merge_run l ps"
    by (simp add: mergeIndices_run Cons)
  then show ?thesis using merge_run_valid [OF l ps] by simp
qed

lemma mergeIndices_hd_nonneg:
  assumes "\<forall>p\<in>set indices. valid_span txt p" and "mergeIndices indices \<noteq> []"
  shows "0 \<le> fst (hd (mergeIndices indices))"
  using mergeIndices_valid [OF assms(1)] assms(2)
  by (cases "mergeIndices indices") (auto simp: valid_span_def)


lemma emit_merged_concat:
  assumes "\<forall>p\<in>set indices. valid_span txt p"
  shows "concat (map seg_text (emit_segments txt 0 (mergeIndices indices))) = txt"
proof -
  let ?ms = "mergeIndices indices"
  have v: "\<forall>m\<in>set ?ms. valid_span txt m" using assms by (rule mergeIndices_valid)
  have "concat (map seg_text (emit_segments txt 0 ?ms)) = drop (nat 0) txt"
  proof (rule emit_concat)
    show "(0::int) \<le> 0" by simp
    show "\<forall>p\<in>set ?ms. fst p \<le> snd p \<and> snd p < int (length txt)"
      using v by (simp add: valid_span_def)
    show "successively (\<lambda>a b. snd a < fst b) ?ms"
      by (rule successively_mono [OF mergeIndices_separated]) simp
    show "?ms \<noteq> [] \<longrightarrow> 0 \<le> fst (hd ?ms)"
      using mergeIndices_hd_nonneg [OF assms] by simp
  qed
  then show ?thesis by simp
qed

lemma emit_hd:
  assumes "0 \<le> li"
    and "\<forall>p\<in>set ps. valid_span txt p"
    and "ps \<noteq> [] \<longrightarrow> li < fst (hd ps)"
    and "emit_segments txt li ps \<noteq> []"
  shows "\<not> highlighted (hd (emit_segments txt li ps))
         \<and> seg_text (hd (emit_segments txt li ps)) \<noteq> []"
proof (cases ps)
  case Nil
  then have "li < int (length txt)" using assms(4) by (simp split: if_splits)
  then show ?thesis using Nil assms(1) by (simp add: js_slice_from_nonneg)
next
  case (Cons p rest)
  obtain s e where p: "p = (s, e)" by (cases p)
  have b: "li < s" "s \<le> e" "e < int (length txt)"
    using assms(2,3) Cons p by (auto simp: valid_span_def)
  have "js_slice txt li s = take (nat (s - li)) (drop (nat li) txt)"
    using b assms(1) by (simp add: js_slice_inrange)
  moreover have "nat li < length txt" "0 < nat (s - li)" using b assms(1) by auto
  ultimately have "js_slice txt li s \<noteq> []" by simp
  then show ?thesis using Cons p b by simp
qed

lemma emit_alternate:
  assumes "\<forall>p\<in>set ps. valid_span txt p"
    and "successively (\<lambda>a b. snd a + 1 < fst b) ps"
  shows "successively (\<lambda>x y. highlighted x \<longrightarrow> \<not> highlighted y \<and> seg_text y \<noteq> [])
           (emit_segments txt li ps)"
  using assms
proof (induction ps arbitrary: li)
  case Nil
  show ?case by simp
next
  case (Cons p ps)
  let ?R = "\<lambda>x y. highlighted x \<longrightarrow> \<not> highlighted y \<and> seg_text y \<noteq> []"
  obtain s e where p: "p = (s, e)" by (cases p)
  let ?H = "\<lparr>seg_text = js_slice txt s (e + 1), highlighted = True\<rparr>"
  let ?tl = "emit_segments txt (e + 1) ps"
  have v: "\<forall>q\<in>set ps. valid_span txt q" using Cons.prems(1) by simp
  have sep: "successively (\<lambda>a b. snd a + 1 < fst b) ps"
    using Cons.prems(2) by (cases ps) auto
  have nxt: "ps \<noteq> [] \<longrightarrow> e + 1 < fst (hd ps)"
    using Cons.prems(2) p by (cases ps) auto
  have e0: "0 \<le> e + 1" using Cons.prems(1) p by (simp add: valid_span_def)
  have tl: "successively ?R ?tl" using Cons.IH [OF v sep] .
  have "?tl \<noteq> [] \<longrightarrow> ?R ?H (hd ?tl)"
    using emit_hd [OF e0 v nxt] by simp
  then have htl: "successively ?R (?H # ?tl)"
    using tl by (auto simp add: successively_Cons)
  show ?case
  proof (cases "s > li")
    case True
    then have "emit_segments txt li (p # ps)
        = \<lparr>seg_text = js_slice txt li s, highlighted = False\<rparr> # ?H # ?tl"
      by (simp add: p)
    then show ?thesis using htl by simp
  next
    case False
    then have "emit_segments txt li (p # ps) = ?H # ?tl" by (simp add: p)
    then show ?thesis using htl by simp
  qed
qed

lemma merge_run_hd_snd: "snd l \<le> snd (hd (merge_run l ps))"
proof (induction ps arbitrary: l)
  case Nil
  show ?case by simp
next
  case (Cons p ps)
  show ?case
  proof (cases "fst p \<le> snd l + 1")
    case True
    then show ?thesis using Cons.IH [of "(fst l, max (snd l) (snd p))"] by simp
  next
    case False
    then show ?thesis by simp
  qed
qed

lemma merge_run_cover:
  assumes "sorted (map fst (l # ps))"
  shows "\<forall>x\<in>set (l # ps). \<exists>m\<in>set (merge_run l ps). fst m \<le> fst x \<and> snd x \<le> snd m"
  using assms
proof (induction ps arbitrary: l)
  case Nil
  show ?case by simp
next
  case (Cons p ps)
  have lp: "fst l \<le> fst p" and srt: "sorted (map fst (p # ps))"
    and lps: "\<forall>x\<in>set ps. fst l \<le> fst x"
    using Cons.prems by auto
  show ?case
  proof (cases "fst p \<le> snd l + 1")
    case True
    let ?l' = "(fst l, max (snd l) (snd p))"
    have run: "merge_run l (p # ps) = merge_run ?l' ps" using True by simp
    have "sorted (map fst (?l' # ps))" using srt lps by simp
    then have ih: "\<forall>x\<in>set (?l' # ps). \<exists>m\<in>set (merge_run ?l' ps). fst m \<le> fst x \<and> snd x \<le> snd m"
      by (rule Cons.IH)
    then obtain m where m: "m \<in> set (merge_run ?l' ps)" "fst m \<le> fst l" "max (snd l) (snd p) \<le> snd m"
      by auto
    show ?thesis
    proof
      fix x assume "x \<in> set (l # p # ps)"
      then consider "x = l" | "x = p" | "x \<in> set ps" by auto
      then show "\<exists>m\<in>set (merge_run l (p # ps)). fst m \<le> fst x \<and> snd x \<le> snd m"
      proof cases
        case 1
        have "fst m \<le> fst x \<and> snd x \<le> snd m" using 1 m by simp
        then show ?thesis unfolding run using m(1) by blast
      next
        case 2
        have "fst m \<le> fst x \<and> snd x \<le> snd m" using 2 m lp by simp
        then show ?thesis unfolding run using m(1) by blast
      next
        case 3
        then show ?thesis unfolding run using ih by simp
      qed
    qed
  next
    case False
    then have run: "merge_run l (p # ps) = l # merge_run p ps" by simp
    have ih: "\<forall>x\<in>set (p # ps). \<exists>m\<in>set (merge_run p ps). fst m \<le> fst x \<and> snd x \<le> snd m"
      using srt by (rule Cons.IH)
    show ?thesis
    proof
      fix x assume "x \<in> set (l # p # ps)"
      then consider "x = l" | "x \<in> set (p # ps)" by auto
      then show "\<exists>m\<in>set (merge_run l (p # ps)). fst m \<le> fst x \<and> snd x \<le> snd m"
      proof cases
        case 1
        then show ?thesis unfolding run by simp
      next
        case 2
        then obtain m where "m \<in> set (merge_run p ps)" "fst m \<le> fst x" "snd x \<le> snd m"
          using ih by blast
        then show ?thesis unfolding run by auto
      qed
    qed
  qed
qed

lemma mergeIndices_cover:
  assumes "x \<in> set indices"
  shows "\<exists>m\<in>set (mergeIndices indices). fst m \<le> fst x \<and> snd x \<le> snd m"
proof (cases "sort_key fst indices")
  case Nil
  have "set (sort_key fst indices) = set indices" by simp
  then have "set indices = {}" unfolding Nil by simp
  then show ?thesis using assms by simp
next
  case (Cons l ps)
  have "sorted (map fst (sort_key fst indices))" by (rule sorted_sort_key)
  then have srt: "sorted (map fst (l # ps))" unfolding Cons .
  have "set (l # ps) = set indices" unfolding Cons [symmetric] by simp
  then have x: "x \<in> set (l # ps)" using assms by simp
  have run: "mergeIndices indices = merge_run l ps"
    by (simp add: mergeIndices_run Cons)
  show ?thesis unfolding run using merge_run_cover [OF srt] x by (rule bspec)
qed

lemma sorted_wrt_total:
  "sorted_wrt P xs \<Longrightarrow> x \<in> set xs \<Longrightarrow> y \<in> set xs \<Longrightarrow> x \<noteq> y \<Longrightarrow> P x y \<or> P y x"
  by (induction xs) auto

lemma mergeIndices_pairwise:
  assumes "\<forall>p\<in>set indices. valid_span txt p"
  shows "sorted_wrt (\<lambda>a b. snd a + 1 < fst b) (mergeIndices indices)"
proof -
  have v: "\<forall>m\<in>set (mergeIndices indices). fst m \<le> snd m"
    using mergeIndices_valid [OF assms] by (simp add: valid_span_def)
  have "successively (\<lambda>a b. snd a + 1 < fst b) (mergeIndices indices)
        \<longleftrightarrow> sorted_wrt (\<lambda>a b. snd a + 1 < fst b) (mergeIndices indices)"
  proof (rule successively_iff_sorted_wrt_strong)
    fix x y z :: "int \<times> int"
    assume "y \<in> set (mergeIndices indices)" "snd x + 1 < fst y" "snd y + 1 < fst z"
    then show "snd x + 1 < fst z" using v by force
  qed
  then show ?thesis using mergeIndices_separated by simp
qed

lemma mergeIndices_touching:
  assumes v: "\<forall>p\<in>set indices. valid_span txt p"
    and a: "a \<in> set indices" and b: "b \<in> set indices"
    and ab: "fst a \<le> fst b" "fst b \<le> snd a + 1"
  shows "\<exists>m\<in>set (mergeIndices indices). fst m \<le> fst a \<and> snd a \<le> snd m \<and> snd b \<le> snd m"
proof -
  obtain ma where ma: "ma \<in> set (mergeIndices indices)" "fst ma \<le> fst a" "snd a \<le> snd ma"
    using mergeIndices_cover [OF a] by blast
  obtain mb where mb: "mb \<in> set (mergeIndices indices)" "fst mb \<le> fst b" "snd b \<le> snd mb"
    using mergeIndices_cover [OF b] by blast
  have vb: "fst b \<le> snd b" using v b by (simp add: valid_span_def)
  show ?thesis
  proof (cases "ma = mb")
    case True
    then show ?thesis using ma mb by blast
  next
    case False
    then have "snd ma + 1 < fst mb \<or> snd mb + 1 < fst ma"
      using sorted_wrt_total [OF mergeIndices_pairwise [OF v] ma(1) mb(1)] by simp
    then have False using ma mb ab vb by linarith
    then show ?thesis ..
  qed
qed


lemma valid_matches_field:
  assumes "valid_matches txt (Some ms)" and "find_field ms k = Some fm"
  shows "\<forall>p\<in>set (m_indices fm). valid_span txt p"
proof -
  have "fm \<in> set ms" using assms(2) by (auto simp: find_field_def find_Some_iff)
  then show ?thesis using assms(1) by (simp add: valid_matches_def list_all_iff)
qed

subsection \<open>Round trip\<close>

text \<open>
  Claim C2. For every text and every valid set of spans (each span \<open>[start, end]\<close> with
  \<open>0 \<le> start \<le> end < length text\<close>), the texts of the segments that
  \<open>getHighlightSegments\<close> returns, concatenated in the order of emission, are the input
  text: the segments leave no gap and do not overlap.
\<close>

theorem highlight_round_trip:
  assumes "valid_matches txt mts"
  shows "concat (map seg_text (getHighlightSegments txt mts k)) = txt"
proof (cases mts)
  case None
  then show ?thesis by (simp add: getHighlightSegments_def)
next
  case (Some ms)
  show ?thesis
  proof (cases "find_field ms k")
    case None
    then show ?thesis using Some by (simp add: getHighlightSegments_def)
  next
    case (Some fm)
    have "\<forall>p\<in>set (m_indices fm). valid_span txt p"
      using valid_matches_field assms Some \<open>mts = Some ms\<close> by simp
    then have "concat (map seg_text (emit_segments txt 0 (mergeIndices (m_indices fm)))) = txt"
      by (rule emit_merged_concat)
    then show ?thesis using Some \<open>mts = Some ms\<close>
      by (simp add: getHighlightSegments_def)
  qed
qed

theorem highlight_round_trip_witness:
  "valid_matches (ascii ''EFFERALGAN'')
     (Some [\<lparr>m_key = Some (ascii ''name''), m_indices = [(6, 8), (0, 1), (2, 3)], m_value = None\<rparr>])
   \<and> concat (map seg_text (getHighlightSegments (ascii ''EFFERALGAN'')
     (Some [\<lparr>m_key = Some (ascii ''name''), m_indices = [(6, 8), (0, 1), (2, 3)], m_value = None\<rparr>])
     (ascii ''name''))) = ascii ''EFFERALGAN''"
proof -
  have v: "valid_matches (ascii ''EFFERALGAN'')
     (Some [\<lparr>m_key = Some (ascii ''name''), m_indices = [(6, 8), (0, 1), (2, 3)], m_value = None\<rparr>])"
    by (simp add: valid_matches_def valid_span_def ascii_def)
  show ?thesis using v highlight_round_trip [OF v, of "ascii ''name''"] by simp
qed

subsection \<open>What the merged spans and the output cover\<close>

lemma covered_iff: "covered spans i \<longleftrightarrow> (\<exists>p\<in>set spans. fst p \<le> i \<and> i \<le> snd p)"
  by (simp add: covered_def list_ex_iff)

lemma merge_run_within:
  assumes "\<forall>i. fst l \<le> i \<and> i \<le> snd l \<longrightarrow> covered S i"
    and "set ps \<subseteq> set S"
  shows "\<forall>g\<in>set (merge_run l ps). \<forall>i. fst g \<le> i \<and> i \<le> snd g \<longrightarrow> covered S i"
  using assms
proof (induction ps arbitrary: l)
  case Nil
  then show ?case by simp
next
  case (Cons p ps)
  have p: "p \<in> set S" and ps: "set ps \<subseteq> set S" using Cons.prems(2) by simp_all
  have pc: "\<forall>i. fst p \<le> i \<and> i \<le> snd p \<longrightarrow> covered S i"
    using p by (auto simp add: covered_iff)
  show ?case
  proof (cases "fst p \<le> snd l + 1")
    case True
    have "\<forall>i. fst (fst l, max (snd l) (snd p)) \<le> i \<and> i \<le> snd (fst l, max (snd l) (snd p))
            \<longrightarrow> covered S i"
    proof (intro allI impI)
      fix i assume i: "fst (fst l, max (snd l) (snd p)) \<le> i \<and> i \<le> snd (fst l, max (snd l) (snd p))"
      show "covered S i"
      proof (cases "i \<le> snd l")
        case True
        then show ?thesis using i Cons.prems(1) by simp
      next
        case False
        then have "fst p \<le> i \<and> i \<le> snd p" using i \<open>fst p \<le> snd l + 1\<close> by auto
        then show ?thesis using pc by simp
      qed
    qed
    then have "\<forall>g\<in>set (merge_run (fst l, max (snd l) (snd p)) ps).
        \<forall>i. fst g \<le> i \<and> i \<le> snd g \<longrightarrow> covered S i"
      using ps by (rule Cons.IH)
    then show ?thesis using True by simp
  next
    case False
    have "\<forall>g\<in>set (merge_run p ps). \<forall>i. fst g \<le> i \<and> i \<le> snd g \<longrightarrow> covered S i"
      using pc ps by (rule Cons.IH)
    then show ?thesis using False Cons.prems(1) by simp
  qed
qed

lemma mergeIndices_within:
  assumes "covered (mergeIndices indices) i"
  shows "covered indices i"
proof (cases "sort_key fst indices")
  case Nil
  then have "mergeIndices indices = []" by (simp add: mergeIndices_run)
  then show ?thesis using assms by (simp add: covered_def)
next
  case (Cons l ps)
  have s: "set (l # ps) = set indices" unfolding Cons [symmetric] by simp
  then have l: "l \<in> set indices" and ps: "set ps \<subseteq> set indices" by auto
  have lc: "\<forall>i. fst l \<le> i \<and> i \<le> snd l \<longrightarrow> covered indices i"
    using l by (auto simp add: covered_iff)
  have run: "mergeIndices indices = merge_run l ps" by (simp add: mergeIndices_run Cons)
  obtain g where "g \<in> set (merge_run l ps)" "fst g \<le> i \<and> i \<le> snd g"
    using assms unfolding run by (auto simp add: covered_iff)
  then show ?thesis using merge_run_within [OF lc ps] by blast
qed

lemma mergeIndices_covered: "covered (mergeIndices indices) i \<longleftrightarrow> covered indices i"
proof
  assume "covered (mergeIndices indices) i"
  then show "covered indices i" by (rule mergeIndices_within)
next
  assume "covered indices i"
  then obtain p where p: "p \<in> set indices" "fst p \<le> i" "i \<le> snd p"
    by (auto simp add: covered_iff)
  obtain m where "m \<in> set (mergeIndices indices)" "fst m \<le> fst p" "snd p \<le> snd m"
    using mergeIndices_cover [OF p(1)] by blast
  then have "m \<in> set (mergeIndices indices) \<and> fst m \<le> i \<and> i \<le> snd m" using p by linarith
  then show "covered (mergeIndices indices) i" unfolding covered_iff by blast
qed

lemma emit_highlighted:
  "filter highlighted (emit_segments txt li spans) = map (span_segment txt) spans"
  by (induction spans arbitrary: li) (auto simp add: span_segment_def)

lemma map_constant: "(\<And>x. x \<in> set xs \<Longrightarrow> f x = c) \<Longrightarrow> map f xs = replicate (length xs) c"
  by (induction xs) simp_all

lemma length_js_slice:
  "0 \<le> a \<Longrightarrow> a \<le> b \<Longrightarrow> b \<le> int (length s) \<Longrightarrow> length (js_slice s a b) = nat b - nat a"
  by (simp add: js_slice_inrange nat_diff_distrib)

lemma upt_split3:
  "a \<le> b \<Longrightarrow> b \<le> c \<Longrightarrow> c \<le> d \<Longrightarrow> [a..<d] = [a..<b] @ [b..<c] @ [c..<d]"
  by (metis le_trans upt_add_eq_append le_Suc_ex)

lemma emit_marks:
  assumes "0 \<le> li"
    and "\<forall>p\<in>set spans. valid_span txt p"
    and "sorted_wrt (\<lambda>a b. snd a + 1 < fst b) spans"
    and "\<forall>p\<in>set spans. li \<le> fst p"
  shows "marks (emit_segments txt li spans) = map (\<lambda>i. covered spans (int i)) [nat li..<length txt]"
  using assms
proof (induction spans arbitrary: li)
  case Nil
  have "map (\<lambda>i. covered [] (int i)) [nat li..<length txt]
      = replicate (length [nat li..<length txt]) False"
    by (rule map_constant) (simp add: covered_def)
  then show ?case using Nil.prems(1)
    by (auto simp add: marks_def js_slice_from_nonneg)
next
  case (Cons p rest)
  obtain s e where p: "p = (s, e)" by (cases p)
  have b: "0 \<le> li" "li \<le> s" "0 \<le> s" "s \<le> e" "e < int (length txt)"
    using Cons.prems p by (auto simp add: valid_span_def)
  have later: "\<forall>q\<in>set rest. e + 1 < fst q" using Cons.prems(3) p by simp
  have ih: "marks (emit_segments txt (e + 1) rest)
      = map (\<lambda>i. covered rest (int i)) [nat (e + 1)..<length txt]"
  proof (rule Cons.IH)
    show "0 \<le> e + 1" using b by simp
    show "\<forall>q\<in>set rest. valid_span txt q" using Cons.prems(2) by simp
    show "sorted_wrt (\<lambda>a b. snd a + 1 < fst b) rest" using Cons.prems(3) by simp
    show "\<forall>q\<in>set rest. e + 1 \<le> fst q" using later by auto
  qed
  let ?f = "\<lambda>i. covered (p # rest) (int i)"
  have before: "map ?f [nat li..<nat s] = replicate (nat s - nat li) False"
  proof -
    have "map ?f [nat li..<nat s] = replicate (length [nat li..<nat s]) False"
    proof (rule map_constant)
      fix i assume "i \<in> set [nat li..<nat s]"
      then have "int i < s" using b by auto
      then show "?f i = False" using later p b by (fastforce simp add: covered_iff)
    qed
    then show ?thesis by simp
  qed
  have inside: "map ?f [nat s..<nat (e + 1)] = replicate (nat (e + 1) - nat s) True"
  proof -
    have "map ?f [nat s..<nat (e + 1)] = replicate (length [nat s..<nat (e + 1)]) True"
    proof (rule map_constant)
      fix i assume "i \<in> set [nat s..<nat (e + 1)]"
      then have "s \<le> int i \<and> int i \<le> e" using b by auto
      then show "?f i = True" using p by (simp add: covered_iff)
    qed
    then show ?thesis by simp
  qed
  have after: "map ?f [nat (e + 1)..<length txt] = map (\<lambda>i. covered rest (int i)) [nat (e + 1)..<length txt]"
  proof (rule map_cong [OF refl])
    fix i assume "i \<in> set [nat (e + 1)..<length txt]"
    then have "e < int i" using b by auto
    then show "?f i = covered rest (int i)" using p by (simp add: covered_iff)
  qed
  have "[nat li..<length txt] = [nat li..<nat s] @ [nat s..<nat (e + 1)] @ [nat (e + 1)..<length txt]"
    using b by (intro upt_split3) simp_all
  then have rhs: "map ?f [nat li..<length txt]
      = replicate (nat s - nat li) False @ replicate (nat (e + 1) - nat s) True
        @ marks (emit_segments txt (e + 1) rest)"
    using before inside after ih by (simp only: map_append)
  have l1: "length (js_slice txt li s) = nat s - nat li"
    using b by (intro length_js_slice) simp_all
  have l2: "length (js_slice txt s (e + 1)) = nat (e + 1) - nat s"
    using b by (intro length_js_slice) simp_all
  have emit: "emit_segments txt li (p # rest) =
      (if s > li then [\<lparr>seg_text = js_slice txt li s, highlighted = False\<rparr>] else [])
      @ \<lparr>seg_text = js_slice txt s (e + 1), highlighted = True\<rparr>
      # emit_segments txt (e + 1) rest"
    by (simp add: p)
  have lhs: "marks (emit_segments txt li (p # rest))
      = replicate (nat s - nat li) False @ replicate (nat (e + 1) - nat s) True
        @ marks (emit_segments txt (e + 1) rest)"
  proof (cases "s > li")
    case True
    then show ?thesis unfolding emit by (simp add: marks_def l1 l2)
  next
    case False
    then have "nat s - nat li = 0" using b by simp
    then show ?thesis unfolding emit using False by (simp add: marks_def l2)
  qed
  show ?case using lhs rhs by simp
qed

lemma highlight_marks:
  assumes "valid_matches txt (Some ms)"
  shows "marks (getHighlightSegments txt (Some ms) k)
       = map (\<lambda>i. covered (field_spans ms k) (int i)) [0..<length txt]"
proof -
  have none: "marks [\<lparr>seg_text = txt, highlighted = False\<rparr>]
      = map (\<lambda>i. covered [] (int i)) [0..<length txt]"
  proof -
    have "map (\<lambda>i. covered [] (int i)) [0..<length txt] = replicate (length [0..<length txt]) False"
      by (rule map_constant) (simp add: covered_def)
    then show ?thesis by (simp add: marks_def)
  qed
  show ?thesis
  proof (cases "find_field ms k")
    case None
    then have "ms = [] \<or> find_field ms k = None" by simp
    then show ?thesis using none None
      by (auto simp add: getHighlightSegments_def field_spans_def)
  next
    case (Some fm)
    let ?idx = "m_indices fm"
    have fs: "field_spans ms k = ?idx" using Some by (simp add: field_spans_def)
    have v: "\<forall>p\<in>set ?idx. valid_span txt p"
      using valid_matches_field [OF assms Some] .
    have ms: "ms \<noteq> []" using Some by (auto simp add: find_field_def)
    show ?thesis
    proof (cases "txt = [] \<or> ?idx = []")
      case True
      then have "getHighlightSegments txt (Some ms) k = [\<lparr>seg_text = txt, highlighted = False\<rparr>]"
        using Some by (auto simp add: getHighlightSegments_def)
      moreover have "map (\<lambda>i. covered ?idx (int i)) [0..<length txt]
          = map (\<lambda>i. covered [] (int i)) [0..<length txt]"
        using True by auto
      ultimately show ?thesis using none fs by simp
    next
      case False
      then have g: "getHighlightSegments txt (Some ms) k = emit_segments txt 0 (mergeIndices ?idx)"
        using Some ms by (simp add: getHighlightSegments_def)
      have mv: "\<forall>p\<in>set (mergeIndices ?idx). valid_span txt p" using v by (rule mergeIndices_valid)
      have "marks (emit_segments txt 0 (mergeIndices ?idx))
          = map (\<lambda>i. covered (mergeIndices ?idx) (int i)) [nat 0..<length txt]"
      proof (rule emit_marks)
        show "(0::int) \<le> 0" by simp
        show "\<forall>p\<in>set (mergeIndices ?idx). valid_span txt p" using mv .
        show "sorted_wrt (\<lambda>a b. snd a + 1 < fst b) (mergeIndices ?idx)"
          using v by (rule mergeIndices_pairwise)
        show "\<forall>p\<in>set (mergeIndices ?idx). 0 \<le> fst p" using mv by (simp add: valid_span_def)
      qed
      then show ?thesis using g fs by (simp add: mergeIndices_covered)
    qed
  qed
qed

lemma highlight_segments_are_spans:
  assumes "valid_matches txt (Some ms)"
  shows "filter highlighted (getHighlightSegments txt (Some ms) k)
     = map (span_segment txt) (mergeIndices (field_spans ms k))"
proof (cases "find_field ms k")
  case None
  then show ?thesis
    by (simp add: getHighlightSegments_def field_spans_def mergeIndices_def)
next
  case (Some fm)
  have v: "\<forall>p\<in>set (m_indices fm). valid_span txt p"
    using valid_matches_field [OF assms Some] .
  have ms: "ms \<noteq> []" using Some by (auto simp add: find_field_def)
  have fs: "field_spans ms k = m_indices fm" using Some by (simp add: field_spans_def)
  show ?thesis
  proof (cases "m_indices fm = []")
    case True
    then show ?thesis using Some fs
      by (simp add: getHighlightSegments_def mergeIndices_def)
  next
    case False
    then obtain p where "p \<in> set (m_indices fm)" by (cases "m_indices fm") auto
    then have "valid_span txt p" using v by simp
    then have "txt \<noteq> []" by (auto simp add: valid_span_def)
    then show ?thesis using Some ms False fs
      by (simp add: getHighlightSegments_def emit_highlighted)
  qed
qed

subsection \<open>Merging\<close>

text \<open>
  Claim C7 reads: spans that overlap or are adjacent with a gap of at most one character
  are merged, so that no two highlighted segments of the output are separated by a gap
  of one character or less. The gap of two spans is read as the number of characters that
  lie between them, \<open>span_gap\<close>. The loop merges a span only when it starts at most one
  past the end of the last merged span, that is when no character lies between the two. The
  spans \<open>[0, 1]\<close> and \<open>[3, 4]\<close> of \<open>abcde\<close> have one character between them, they
  are not merged, and the output has two highlighted segments separated by the single
  character \<open>c\<close>.
\<close>

theorem merge_gap_one_counterexample:
  "span_gap (0, 1) (3, 4) = 1
   \<and> mergeIndices [(0, 1), (3, 4)] = [(0, 1), (3, 4)]
   \<and> getHighlightSegments (ascii ''abcde'')
       (Some [\<lparr>m_key = Some (ascii ''name''), m_indices = [(0, 1), (3, 4)], m_value = None\<rparr>])
       (ascii ''name'')
     = [\<lparr>seg_text = ascii ''ab'', highlighted = True\<rparr>,
        \<lparr>seg_text = ascii ''c'', highlighted = False\<rparr>,
        \<lparr>seg_text = ascii ''de'', highlighted = True\<rparr>]"
  by (simp add: span_gap_def mergeIndices_def getHighlightSegments_def find_field_def
      ascii_def js_slice_def slice_index_def)

text \<open>
  Claim C7, as the code has it. For valid spans of a field: two spans that overlap or
  touch (no character lies between them: the later one starts at most one past the end of
  the earlier one) lie in one merged span; the merged spans cover exactly the characters
  that the spans cover, so that spans with characters between them are joined only where
  other spans cover all those characters; two consecutive merged spans have at least one
  character between them. In the output the highlighted segments are the merged spans of
  the requested field, in their order; a character is in a highlighted segment exactly
  when a span of the field covers it; and a highlighted segment is followed, if at all,
  by a non-empty segment that is not highlighted, so that two highlighted segments are
  separated by at least one character, and by characters that no span covers.
\<close>

theorem touching_spans_merged:
  assumes "valid_matches txt (Some ms)"
  shows "(\<forall>m\<in>set ms. \<forall>a\<in>set (m_indices m). \<forall>b\<in>set (m_indices m).
            fst a \<le> fst b \<and> span_gap a b \<le> 0 \<longrightarrow>
            (\<exists>g\<in>set (mergeIndices (m_indices m)).
               fst g \<le> fst a \<and> snd a \<le> snd g \<and> snd b \<le> snd g))
       \<and> (\<forall>m\<in>set ms. successively (\<lambda>g h. 1 \<le> span_gap g h) (mergeIndices (m_indices m)))
       \<and> successively after_highlight (getHighlightSegments txt (Some ms) k)
       \<and> (\<forall>m\<in>set ms. \<forall>i. covered (mergeIndices (m_indices m)) i \<longleftrightarrow> covered (m_indices m) i)
       \<and> filter highlighted (getHighlightSegments txt (Some ms) k)
           = map (span_segment txt) (mergeIndices (field_spans ms k))
       \<and> marks (getHighlightSegments txt (Some ms) k)
           = map (\<lambda>i. covered (field_spans ms k) (int i)) [0..<length txt]"
proof -
  have 1: "\<forall>m\<in>set ms. \<forall>a\<in>set (m_indices m). \<forall>b\<in>set (m_indices m).
            fst a \<le> fst b \<and> span_gap a b \<le> 0 \<longrightarrow>
            (\<exists>g\<in>set (mergeIndices (m_indices m)).
               fst g \<le> fst a \<and> snd a \<le> snd g \<and> snd b \<le> snd g)"
  proof (intro ballI impI)
    fix m a b
    assume m: "m \<in> set ms" and a: "a \<in> set (m_indices m)" and b: "b \<in> set (m_indices m)"
      and ab: "fst a \<le> fst b \<and> span_gap a b \<le> 0"
    have v: "\<forall>p\<in>set (m_indices m). valid_span txt p"
      using assms m by (simp add: valid_matches_def list_all_iff)
    show "\<exists>g\<in>set (mergeIndices (m_indices m)). fst g \<le> fst a \<and> snd a \<le> snd g \<and> snd b \<le> snd g"
      using mergeIndices_touching [OF v a b] ab by (simp add: span_gap_def)
  qed
  have 2: "\<forall>m\<in>set ms. successively (\<lambda>g h. 1 \<le> span_gap g h) (mergeIndices (m_indices m))"
  proof
    fix m
    have "successively (\<lambda>a b. snd a + 1 < fst b) (mergeIndices (m_indices m))"
      by (rule mergeIndices_separated)
    then show "successively (\<lambda>g h. 1 \<le> span_gap g h) (mergeIndices (m_indices m))"
      by (rule successively_mono) (simp add: span_gap_def)
  qed
  have single: "successively after_highlight [\<lparr>seg_text = txt, highlighted = False\<rparr>]"
    by simp
  have 3: "successively after_highlight (getHighlightSegments txt (Some ms) k)"
  proof (cases "find_field ms k")
    case None
    then show ?thesis using single by (simp add: getHighlightSegments_def)
  next
    case (Some fm)
    have v: "\<forall>p\<in>set (m_indices fm). valid_span txt p"
      using valid_matches_field [OF assms Some] .
    have "successively (\<lambda>x y. highlighted x \<longrightarrow> \<not> highlighted y \<and> seg_text y \<noteq> [])
            (emit_segments txt 0 (mergeIndices (m_indices fm)))"
      using mergeIndices_valid [OF v] mergeIndices_separated by (rule emit_alternate)
    then have "successively after_highlight (emit_segments txt 0 (mergeIndices (m_indices fm)))"
      by (rule successively_mono) (simp add: after_highlight_def)
    then show ?thesis using Some single by (simp add: getHighlightSegments_def)
  qed
  have 4: "\<forall>m\<in>set ms. \<forall>i. covered (mergeIndices (m_indices m)) i \<longleftrightarrow> covered (m_indices m) i"
    by (simp add: mergeIndices_covered)
  show ?thesis
    using 1 2 3 4 highlight_segments_are_spans [OF assms] highlight_marks [OF assms] by blast
qed

theorem touching_spans_merged_witness:
  "valid_matches (ascii ''abcdefg'')
     (Some [\<lparr>m_key = Some (ascii ''name''), m_indices = [(6, 6), (3, 4), (0, 1), (2, 2)], m_value = None\<rparr>])
   \<and> (\<exists>g\<in>set (mergeIndices [(6, 6), (3, 4), (0, 1), (2, 2)]). fst g \<le> 0 \<and> 1 \<le> snd g \<and> 2 \<le> snd g)
   \<and> successively (\<lambda>g h. 1 \<le> span_gap g h) (mergeIndices [(6, 6), (3, 4), (0, 1), (2, 2)])
   \<and> successively after_highlight (getHighlightSegments (ascii ''abcdefg'')
     (Some [\<lparr>m_key = Some (ascii ''name''), m_indices = [(6, 6), (3, 4), (0, 1), (2, 2)], m_value = None\<rparr>])
     (ascii ''name''))
   \<and> \<not> covered (mergeIndices [(6, 6), (3, 4), (0, 1), (2, 2)]) 5
   \<and> filter highlighted (getHighlightSegments (ascii ''abcdefg'')
     (Some [\<lparr>m_key = Some (ascii ''name''), m_indices = [(6, 6), (3, 4), (0, 1), (2, 2)], m_value = None\<rparr>])
     (ascii ''name''))
      = [\<lparr>seg_text = ascii ''abcde'', highlighted = True\<rparr>, \<lparr>seg_text = ascii ''g'', highlighted = True\<rparr>]
   \<and> marks (getHighlightSegments (ascii ''abcdefg'')
     (Some [\<lparr>m_key = Some (ascii ''name''), m_indices = [(6, 6), (3, 4), (0, 1), (2, 2)], m_value = None\<rparr>])
     (ascii ''name''))
      = [True, True, True, True, True, False, True]"
proof -
  let ?idx = "[(6, 6), (3, 4), (0, 1), (2, 2)] :: (int \<times> int) list"
  let ?ms = "[\<lparr>m_key = Some (ascii ''name''), m_indices = ?idx, m_value = None\<rparr>]"
  have v: "valid_matches (ascii ''abcdefg'') (Some ?ms)"
    by (simp add: valid_matches_def valid_span_def ascii_def)
  note inst = touching_spans_merged [OF v, of "ascii ''name''"]
  have fs: "field_spans ?ms (ascii ''name'') = ?idx"
    by (simp add: field_spans_def find_field_def)
  have gap: "span_gap (0, 1) (2, 2) \<le> 0" by (simp add: span_gap_def)
  have 1: "\<exists>g\<in>set (mergeIndices ?idx). fst g \<le> 0 \<and> 1 \<le> snd g \<and> 2 \<le> snd g"
    using inst gap by simp
  have 2: "successively (\<lambda>g h. 1 \<le> span_gap g h) (mergeIndices ?idx)"
    using inst by simp
  have 3: "successively after_highlight (getHighlightSegments (ascii ''abcdefg'') (Some ?ms) (ascii ''name''))"
    using inst by simp
  have "covered (mergeIndices ?idx) 5 \<longleftrightarrow> covered ?idx 5" using inst by simp
  then have 4: "\<not> covered (mergeIndices ?idx) 5" by (simp add: covered_def)
  have "filter highlighted (getHighlightSegments (ascii ''abcdefg'') (Some ?ms) (ascii ''name''))
      = map (span_segment (ascii ''abcdefg'')) (mergeIndices ?idx)"
    using inst fs by simp
  then have 5: "filter highlighted (getHighlightSegments (ascii ''abcdefg'') (Some ?ms) (ascii ''name''))
      = [\<lparr>seg_text = ascii ''abcde'', highlighted = True\<rparr>, \<lparr>seg_text = ascii ''g'', highlighted = True\<rparr>]"
    by (simp add: mergeIndices_def span_segment_def js_slice_def slice_index_def ascii_def)
  have "marks (getHighlightSegments (ascii ''abcdefg'') (Some ?ms) (ascii ''name''))
      = map (\<lambda>i. covered ?idx (int i)) [0..<length (ascii ''abcdefg'')]"
    using inst fs by simp
  then have 6: "marks (getHighlightSegments (ascii ''abcdefg'') (Some ?ms) (ascii ''name''))
      = [True, True, True, True, True, False, True]"
    by (simp add: covered_def ascii_def upt_rec)
  show ?thesis by (intro conjI v 1 2 3 4 5 6)
qed

section \<open>Properties of the debounce\<close>

subsection \<open>The invariant\<close>

lemma ctrl_inv_timers:
  assumes "ctrl_inv c"
  obtains "timers c = []"
  | t where "timers c = [t]" "has_cleanup c" "timerRef c = Some (t_id t)" "t_id t \<noteq> 0" "t_id t < next_id c"
proof (cases "timers c")
  case Nil
  then show ?thesis using that by simp
next
  case (Cons t ts)
  then have "ts = []" using assms by (cases ts) (simp_all add: ctrl_inv_def)
  then show ?thesis using that(2) [of t] assms Cons by (auto simp add: ctrl_inv_def)
qed

lemma ctrl_inv_at_most_one: "ctrl_inv c \<Longrightarrow> length (timers c) \<le> 1"
  by (erule ctrl_inv_timers) simp_all

lemma cleanup_timers:
  assumes "ctrl_inv c"
  shows "timers (if has_cleanup c then cleanup c else c) = []"
  using assms
proof (cases rule: ctrl_inv_timers)
  case 1
  then show ?thesis by (simp add: cleanup_def clearTimeout_def split: option.split)
next
  case (2 t)
  then show ?thesis by (simp add: cleanup_def clearTimeout_def)
qed

lemma cleanup_others:
  "cleanup c = c\<lparr>timers := timers (cleanup c)\<rparr>"
  by (simp add: cleanup_def split: option.split)

lemma commit_effect_same:
  "effect_deps c = (q, dm, mc) \<Longrightarrow> commit_effect q dm mc c = c"
  by (simp add: commit_effect_def)

lemma commit_effect_suspended:
  assumes "ctrl_inv c" and "effect_deps c \<noteq> (q, dm, mc)" and "suspended q mc"
  shows "commit_effect q dm mc c = c\<lparr>effect_deps := (q, dm, mc), timers := [], has_cleanup := False\<rparr>"
proof -
  let ?c1 = "if has_cleanup c then cleanup c else c"
  have t: "timers ?c1 = []" using assms(1) by (rule cleanup_timers)
  have "?c1 = c\<lparr>timers := timers ?c1\<rparr>" using cleanup_others [of c] by simp
  then have c1: "?c1 = c\<lparr>timers := []\<rparr>" using t by simp
  have "commit_effect q dm mc c = effect q dm mc (?c1\<lparr>effect_deps := (q, dm, mc)\<rparr>)"
    using assms(2) by (simp add: commit_effect_def)
  also have "\<dots> = effect q dm mc (c\<lparr>timers := [], effect_deps := (q, dm, mc)\<rparr>)"
    using c1 by simp
  also have "\<dots> = c\<lparr>effect_deps := (q, dm, mc), timers := [], has_cleanup := False\<rparr>"
    using assms(3) by (simp add: effect_def suspended_def Let_def)
  finally show ?thesis .
qed

lemma commit_effect_started:
  assumes "ctrl_inv c" and "effect_deps c \<noteq> (q, dm, mc)" and "\<not> suspended q mc"
  shows "commit_effect q dm mc c =
     c\<lparr>effect_deps := (q, dm, mc), isSearching := True, timerRef := Some (next_id c),
       timers := [\<lparr>t_id = next_id c, t_due = clock c + nat dm, t_query = js_trim q\<rparr>],
       next_id := Suc (next_id c), has_cleanup := True\<rparr>"
proof -
  let ?c1 = "if has_cleanup c then cleanup c else c"
  have t: "timers ?c1 = []" using assms(1) by (rule cleanup_timers)
  have "?c1 = c\<lparr>timers := timers ?c1\<rparr>" using cleanup_others [of c] by simp
  then have c1: "?c1 = c\<lparr>timers := []\<rparr>" using t by simp
  have "commit_effect q dm mc c = effect q dm mc (?c1\<lparr>effect_deps := (q, dm, mc)\<rparr>)"
    using assms(2) by (simp add: commit_effect_def)
  also have "\<dots> = effect q dm mc (c\<lparr>timers := [], effect_deps := (q, dm, mc)\<rparr>)"
    using c1 by simp
  also have "\<dots> = c\<lparr>effect_deps := (q, dm, mc), isSearching := True, timerRef := Some (next_id c),
       timers := [\<lparr>t_id = next_id c, t_due = clock c + nat dm, t_query = js_trim q\<rparr>],
       next_id := Suc (next_id c), has_cleanup := True\<rparr>"
    using assms(3) by (auto simp add: effect_def suspended_def Let_def)
  finally show ?thesis .
qed

lemma advance_idle:
  "timers c = [] \<Longrightarrow> advance d c = c\<lparr>clock := clock c + d\<rparr>"
  by (simp add: advance_def Let_def)

lemma advance_pending:
  "timers c = [t] \<Longrightarrow> clock c + d < t_due t \<Longrightarrow> advance d c = c\<lparr>clock := clock c + d\<rparr>"
  by (simp add: advance_def Let_def is_due_def)

lemma advance_fires:
  "timers c = [t] \<Longrightarrow> t_due t \<le> clock c + d \<Longrightarrow>
   advance d c = c\<lparr>clock := clock c + d, timers := [], debouncedQuery := t_query t,
                    isSearching := False, commits := commits c @ [t_query t]\<rparr>"
  by (simp add: advance_def Let_def is_due_def fire_def)

lemma ctrl_inv_mount: "ctrl_inv (mount_controller q dm mc)"
  by (simp add: mount_controller_def effect_def ctrl_inv_def suspended_def Let_def)

lemma ctrl_inv_commit_effect:
  assumes "ctrl_inv c"
  shows "ctrl_inv (commit_effect q dm mc c)"
proof (cases "effect_deps c = (q, dm, mc)")
  case True
  then show ?thesis using assms by (simp add: commit_effect_same)
next
  case False
  show ?thesis
  proof (cases "suspended q mc")
    case True
    then show ?thesis
      using assms commit_effect_suspended [OF assms False True] by (simp add: ctrl_inv_def)
  next
    case False
    then show ?thesis
      using assms commit_effect_started [OF assms \<open>effect_deps c \<noteq> (q, dm, mc)\<close> False]
      by (simp add: ctrl_inv_def)
  qed
qed

lemma ctrl_inv_advance:
  assumes "ctrl_inv c"
  shows "ctrl_inv (advance d c)"
  using assms
proof (cases rule: ctrl_inv_timers)
  case 1
  then show ?thesis using assms by (simp add: advance_idle ctrl_inv_def)
next
  case (2 t)
  show ?thesis
  proof (cases "t_due t \<le> clock c + d")
    case True
    then show ?thesis using assms 2 by (simp add: advance_fires ctrl_inv_def)
  next
    case False
    then show ?thesis using assms 2 by (simp add: advance_pending ctrl_inv_def)
  qed
qed

lemma ctrl_inv_step: "ctrl_inv c \<Longrightarrow> ctrl_inv (ctrl_step dm mc c e)"
  by (cases e) (simp_all add: ctrl_inv_commit_effect ctrl_inv_advance)

lemma ctrl_inv_run: "ctrl_inv c \<Longrightarrow> ctrl_inv (ctrl_run dm mc evs c)"
  unfolding ctrl_run_def by (induction evs arbitrary: c) (simp_all add: ctrl_inv_step)


lemma ctrl_run_Cons: "ctrl_run dm mc (e # evs) c = ctrl_run dm mc evs (ctrl_step dm mc c e)"
  by (simp add: ctrl_run_def)

lemma ctrl_run_Nil: "ctrl_run dm mc [] c = c"
  by (simp add: ctrl_run_def)

lemma suspended_no_timers:
  assumes "ctrl_inv c" and "effect_deps c = (q, dm, mc)" and "suspended q mc"
  shows "timers c = []"
  using assms(1)
proof (cases rule: ctrl_inv_timers)
  case 1
  then show ?thesis .
next
  case (2 t)
  then show ?thesis using assms by (simp add: ctrl_inv_def)
qed

lemma suspended_render:
  assumes "ctrl_inv c" and "suspended q mc"
  shows "debouncedQuery (commit_effect q dm mc c) = debouncedQuery c
       \<and> isSearching (commit_effect q dm mc c) = isSearching c
       \<and> commits (commit_effect q dm mc c) = commits c
       \<and> timers (commit_effect q dm mc c) = []
       \<and> effect_deps (commit_effect q dm mc c) = (q, dm, mc)"
proof (cases "effect_deps c = (q, dm, mc)")
  case True
  then show ?thesis using suspended_no_timers [OF assms(1) True assms(2)]
    by (simp add: commit_effect_same)
next
  case False
  show ?thesis by (simp add: commit_effect_suspended [OF assms(1) False assms(2)])
qed

lemma suspended_stays:
  assumes "ctrl_inv c" and "effect_deps c = (q, dm, mc)" and "suspended q mc"
    and "list_all (keeps_input q) evs"
  shows "debouncedQuery (ctrl_run dm mc evs c) = debouncedQuery c
       \<and> isSearching (ctrl_run dm mc evs c) = isSearching c
       \<and> commits (ctrl_run dm mc evs c) = commits c
       \<and> timers (ctrl_run dm mc evs c) = []"
  using assms
proof (induction evs arbitrary: c)
  case Nil
  then show ?case using suspended_no_timers by (simp add: ctrl_run_Nil)
next
  case (Cons e evs)
  have t: "timers c = []" using suspended_no_timers Cons.prems(1,2,3) by blast
  let ?c1 = "ctrl_step dm mc c e"
  have step: "ctrl_inv ?c1 \<and> effect_deps ?c1 = (q, dm, mc) \<and> debouncedQuery ?c1 = debouncedQuery c
      \<and> isSearching ?c1 = isSearching c \<and> commits ?c1 = commits c"
  proof (cases e)
    case (Render q')
    then have "q' = q" using Cons.prems(4) by simp
    then show ?thesis using Render Cons.prems(1,2) by (simp add: commit_effect_same)
  next
    case (Advance d)
    then show ?thesis using Cons.prems(1,2) t ctrl_inv_advance [OF Cons.prems(1), of d]
      by (simp add: advance_idle)
  qed
  have "list_all (keeps_input q) evs" using Cons.prems(4) by simp
  then show ?case using Cons.IH [of ?c1] step Cons.prems(3) by (simp add: ctrl_run_Cons)
qed

lemma quiet_update:
  assumes "ctrl_inv c" and "effect_deps c = (q0, dm, mc)" and "q \<noteq> q0" and "d < nat dm"
  shows "ctrl_inv (advance d (commit_effect q dm mc c))
       \<and> effect_deps (advance d (commit_effect q dm mc c)) = (q, dm, mc)
       \<and> commits (advance d (commit_effect q dm mc c)) = commits c"
proof -
  have ne: "effect_deps c \<noteq> (q, dm, mc)" using assms(2,3) by simp
  have inv: "ctrl_inv (advance d (commit_effect q dm mc c))"
    using assms(1) by (intro ctrl_inv_advance ctrl_inv_commit_effect)
  show ?thesis
  proof (cases "suspended q mc")
    case True
    then show ?thesis using inv commit_effect_suspended [OF assms(1) ne True]
      by (simp add: advance_idle)
  next
    case False
    let ?t = "\<lparr>t_id = next_id c, t_due = clock c + nat dm, t_query = js_trim q\<rparr>"
    let ?c1 = "commit_effect q dm mc c"
    have c1: "?c1 = c\<lparr>effect_deps := (q, dm, mc), isSearching := True, timerRef := Some (next_id c),
       timers := [?t], next_id := Suc (next_id c), has_cleanup := True\<rparr>"
      using commit_effect_started [OF assms(1) ne False] .
    have "timers ?c1 = [?t]" "clock ?c1 + d < t_due ?t"
      using assms(4) by (simp_all add: c1)
    then have "advance d ?c1 = ?c1\<lparr>clock := clock ?c1 + d\<rparr>" by (rule advance_pending)
    then show ?thesis using inv by (simp add: c1)
  qed
qed

lemma settled_update:
  assumes "ctrl_inv c" and "effect_deps c = (q0, dm, mc)" and "q \<noteq> q0"
    and "\<not> suspended q mc" and "nat dm \<le> d"
  shows "commits (advance d (commit_effect q dm mc c)) = commits c @ [js_trim q]
       \<and> debouncedQuery (advance d (commit_effect q dm mc c)) = js_trim q
       \<and> isSearching (advance d (commit_effect q dm mc c)) = False
       \<and> timers (advance d (commit_effect q dm mc c)) = []"
proof -
  have ne: "effect_deps c \<noteq> (q, dm, mc)" using assms(2,3) by simp
  let ?t = "\<lparr>t_id = next_id c, t_due = clock c + nat dm, t_query = js_trim q\<rparr>"
  let ?c1 = "commit_effect q dm mc c"
  have c1: "?c1 = c\<lparr>effect_deps := (q, dm, mc), isSearching := True, timerRef := Some (next_id c),
       timers := [?t], next_id := Suc (next_id c), has_cleanup := True\<rparr>"
    using commit_effect_started [OF assms(1) ne assms(4)] .
  have "timers ?c1 = [?t]" "t_due ?t \<le> clock ?c1 + d"
    using assms(5) by (simp_all add: c1)
  then have "advance d ?c1 = ?c1\<lparr>clock := clock ?c1 + d, timers := [], debouncedQuery := t_query ?t,
                    isSearching := False, commits := commits ?c1 @ [t_query ?t]\<rparr>"
    by (rule advance_fires)
  then show ?thesis by (simp add: c1)
qed

lemma burst_commits:
  assumes "us \<noteq> []" and "ctrl_inv c" and "effect_deps c = (q0, dm, mc)"
    and "distinct_adj (q0 # map fst us)"
    and "list_all (\<lambda>d. d < nat dm) (map snd (butlast us))"
    and "nat dm \<le> snd (last us)"
    and "\<not> suspended (fst (last us)) mc"
  shows "commits (ctrl_run dm mc (burst us) c) = commits c @ [js_trim (fst (last us))]
       \<and> debouncedQuery (ctrl_run dm mc (burst us) c) = js_trim (fst (last us))
       \<and> isSearching (ctrl_run dm mc (burst us) c) = False
       \<and> timers (ctrl_run dm mc (burst us) c) = []"
  using assms
proof (induction us arbitrary: c q0 rule: list_nonempty_induct)
  case (single u)
  obtain q d where u: "u = (q, d)" by (cases u)
  have "q \<noteq> q0" "\<not> suspended q mc" "nat dm \<le> d" using single.prems u by auto
  then show ?case using settled_update [OF single.prems(1,2)] u
    by (simp add: ctrl_run_Cons ctrl_run_Nil)
next
  case (cons u us)
  obtain q d where u: "u = (q, d)" by (cases u)
  have q: "q \<noteq> q0" and d: "d < nat dm" using cons.prems(3,4) cons.hyps u by auto
  let ?c2 = "advance d (commit_effect q dm mc c)"
  have c2: "ctrl_inv ?c2 \<and> effect_deps ?c2 = (q, dm, mc) \<and> commits ?c2 = commits c"
    using quiet_update [OF cons.prems(1,2) q d] .
  have "commits (ctrl_run dm mc (burst us) ?c2) = commits ?c2 @ [js_trim (fst (last us))]
       \<and> debouncedQuery (ctrl_run dm mc (burst us) ?c2) = js_trim (fst (last us))
       \<and> isSearching (ctrl_run dm mc (burst us) ?c2) = False
       \<and> timers (ctrl_run dm mc (burst us) ?c2) = []"
  proof (rule cons.IH)
    show "ctrl_inv ?c2" using c2 by simp
    show "effect_deps ?c2 = (q, dm, mc)" using c2 by simp
    show "distinct_adj (q # map fst us)" using cons.prems(3) u by simp
    show "list_all (\<lambda>d. d < nat dm) (map snd (butlast us))" using cons.prems(4) cons.hyps by simp
    show "nat dm \<le> snd (last us)" using cons.prems(5) cons.hyps by simp
    show "\<not> suspended (fst (last us)) mc" using cons.prems(6) cons.hyps by simp
  qed
  then show ?case using c2 cons.hyps by (simp add: u ctrl_run_Cons)
qed

lemma update_cancels:
  assumes "ctrl_inv c" and "fst (effect_deps c) \<noteq> q"
  shows "set (timers c) \<inter> set (timers (commit_effect q dm mc c)) = {}"
proof -
  have ne: "effect_deps c \<noteq> (q, dm, mc)" using assms(2) by auto
  show ?thesis
  proof (cases "suspended q mc")
    case True
    then show ?thesis by (simp add: commit_effect_suspended [OF assms(1) ne])
  next
    case False
    show ?thesis using assms(1)
    proof (cases rule: ctrl_inv_timers)
      case 1
      then show ?thesis by simp
    next
      case (2 t)
      then have "t \<noteq> \<lparr>t_id = next_id c, t_due = clock c + nat dm, t_query = js_trim q\<rparr>"
        by auto
      then show ?thesis using 2 by (simp add: commit_effect_started [OF assms(1) ne False])
    qed
  qed
qed

lemmas ctrl_eval = ctrl_run_def commit_effect_def effect_def cleanup_def clearTimeout_def
  advance_def is_due_def fire_def mount_controller_def js_trim_def is_white_space_def
  ascii_def Let_def suspended_def

subsection \<open>Suspension below the minimum length\<close>

text \<open>
  After a render with a suspended raw query, and for as long as the raw query stays what
  it is, the committed query and the flag are unchanged, nothing is committed and no
  timer is pending.
\<close>

lemma suspended_raw_query:
  assumes "ctrl_inv c" and "suspended q mc" and "list_all (keeps_input q) evs"
  shows "debouncedQuery (ctrl_run dm mc (Render q # evs) c) = debouncedQuery c
       \<and> isSearching (ctrl_run dm mc (Render q # evs) c) = isSearching c
       \<and> commits (ctrl_run dm mc (Render q # evs) c) = commits c
       \<and> timers (ctrl_run dm mc (Render q # evs) c) = []"
proof -
  let ?c1 = "commit_effect q dm mc c"
  have r: "debouncedQuery ?c1 = debouncedQuery c \<and> isSearching ?c1 = isSearching c
       \<and> commits ?c1 = commits c \<and> timers ?c1 = [] \<and> effect_deps ?c1 = (q, dm, mc)"
    using assms(1,2) by (rule suspended_render)
  have inv: "ctrl_inv ?c1" using assms(1) by (rule ctrl_inv_commit_effect)
  have "debouncedQuery (ctrl_run dm mc evs ?c1) = debouncedQuery ?c1
       \<and> isSearching (ctrl_run dm mc evs ?c1) = isSearching ?c1
       \<and> commits (ctrl_run dm mc evs ?c1) = commits ?c1
       \<and> timers (ctrl_run dm mc evs ?c1) = []"
    using inv r assms(2,3) by (intro suspended_stays) simp_all
  then show ?thesis using r by (simp add: ctrl_run_Cons)
qed

text \<open>
  A sequence of updates that ends in a suspended one commits nothing and leaves no timer
  pending.
\<close>

lemma burst_suspended_last:
  assumes "us \<noteq> []" and "ctrl_inv c" and "effect_deps c = (q0, dm, mc)"
    and "distinct_adj (q0 # map fst us)"
    and "list_all (\<lambda>d. d < nat dm) (map snd (butlast us))"
    and "suspended (fst (last us)) mc"
  shows "commits (ctrl_run dm mc (burst us) c) = commits c
       \<and> timers (ctrl_run dm mc (burst us) c) = []"
  using assms
proof (induction us arbitrary: c q0 rule: list_nonempty_induct)
  case (single u)
  obtain q d where u: "u = (q, d)" by (cases u)
  have q: "suspended q mc" using single.prems(5) u by simp
  let ?c1 = "commit_effect q dm mc c"
  have r: "commits ?c1 = commits c" "timers ?c1 = []"
    using suspended_render [OF single.prems(1) q, of dm] by simp_all
  have "advance d ?c1 = ?c1\<lparr>clock := clock ?c1 + d\<rparr>" using r(2) by (rule advance_idle)
  then have "commits (advance d ?c1) = commits c" "timers (advance d ?c1) = []"
    using r by simp_all
  then show ?case by (simp add: u ctrl_run_Cons ctrl_run_Nil)
next
  case (cons u us)
  obtain q d where u: "u = (q, d)" by (cases u)
  have q: "q \<noteq> q0" and d: "d < nat dm" using cons.prems(3,4) cons.hyps u by auto
  let ?c2 = "advance d (commit_effect q dm mc c)"
  have c2: "ctrl_inv ?c2 \<and> effect_deps ?c2 = (q, dm, mc) \<and> commits ?c2 = commits c"
    using quiet_update [OF cons.prems(1,2) q d] .
  have "commits (ctrl_run dm mc (burst us) ?c2) = commits ?c2
       \<and> timers (ctrl_run dm mc (burst us) ?c2) = []"
  proof (rule cons.IH)
    show "ctrl_inv ?c2" using c2 by simp
    show "effect_deps ?c2 = (q, dm, mc)" using c2 by simp
    show "distinct_adj (q # map fst us)" using cons.prems(3) u by simp
    show "list_all (\<lambda>d. d < nat dm) (map snd (butlast us))" using cons.prems(4) cons.hyps by simp
    show "suspended (fst (last us)) mc" using cons.prems(5) cons.hyps by simp
  qed
  then show ?case using c2 cons.hyps by (simp add: u ctrl_run_Cons)
qed

subsection \<open>Coalescing\<close>

text \<open>
  Claim C6 reads: N updates of the raw query, each less than \<^verbatim>\<open>debounceMs\<close> after the
  one before, commit exactly once, with the trimmed value of the last. When the last
  update is suspended nothing is committed: after the committed query has become empty,
  the raw query becomes \<open>ab\<close> and 100 ms later \<open>a\<close> (with 200 ms and 2 characters);
  the delay of \<open>ab\<close> is cancelled, \<open>a\<close> starts none, and a second later the committed
  query is still empty and nothing has been committed.
\<close>

theorem short_last_update_counterexample:
  "commits (ctrl_run 200 2 (burst [(ascii ''ab'', 100::nat), (ascii ''a'', 1000)])
      (advance 200 (mount_controller [] 200 2)))
     = commits (advance 200 (mount_controller [] 200 2))
   \<and> debouncedQuery (ctrl_run 200 2 (burst [(ascii ''ab'', 100::nat), (ascii ''a'', 1000)])
      (advance 200 (mount_controller [] 200 2))) = []
   \<and> js_trim (ascii ''a'') = ascii ''a''"
  by (simp add: ctrl_eval)

text \<open>
  Claim C6, as the code has it. From any state the hook can reach, whatever happens, at
  most one timer is pending, and a render that changes the raw query leaves none of the
  timers pending that were pending before it. After a sequence of updates, each changing
  the raw query and each but the last followed by less than \<^verbatim>\<open>debounceMs\<close>, the last one
  by at least \<^verbatim>\<open>debounceMs\<close>, and the last one not suspended, exactly one value was
  committed, the trimmed last raw query, and it is the committed query. (A render that
  repeats the raw query is no update: the effect does not run, \<open>commit_effect_same\<close>, and
  the timer that is pending stays. When the last update is suspended, nothing is
  committed: \<open>burst_suspended_last\<close>.)
\<close>

theorem debounce_coalesces:
  assumes "ctrl_inv c" and "effect_deps c = (q0, dm, mc)" and "us \<noteq> []"
    and "distinct_adj (q0 # map fst us)"
    and "list_all (\<lambda>d. d < nat dm) (map snd (butlast us))"
    and "nat dm \<le> snd (last us)"
    and "\<not> suspended (fst (last us)) mc"
  shows "(\<forall>evs. length (timers (ctrl_run dm mc evs c)) \<le> 1)
       \<and> (\<forall>evs q. fst (effect_deps (ctrl_run dm mc evs c)) \<noteq> q \<longrightarrow>
            set (timers (ctrl_run dm mc evs c))
              \<inter> set (timers (ctrl_step dm mc (ctrl_run dm mc evs c) (Render q))) = {})
       \<and> commits (ctrl_run dm mc (burst us) c) = commits c @ [js_trim (fst (last us))]
       \<and> debouncedQuery (ctrl_run dm mc (burst us) c) = js_trim (fst (last us))
       \<and> isSearching (ctrl_run dm mc (burst us) c) = False
       \<and> timers (ctrl_run dm mc (burst us) c) = []"
proof (intro conjI allI impI)
  fix evs
  show "length (timers (ctrl_run dm mc evs c)) \<le> 1"
    using assms(1) by (intro ctrl_inv_at_most_one ctrl_inv_run)
next
  fix evs q
  assume "fst (effect_deps (ctrl_run dm mc evs c)) \<noteq> q"
  then show "set (timers (ctrl_run dm mc evs c))
      \<inter> set (timers (ctrl_step dm mc (ctrl_run dm mc evs c) (Render q))) = {}"
    using update_cancels [OF ctrl_inv_run [OF assms(1)]] by simp
qed (use burst_commits [OF assms(3,1,2,4,5,6,7)] in simp_all)

theorem debounce_coalesces_witness:
  "ctrl_inv (mount_controller [] 200 2)
   \<and> effect_deps (mount_controller [] 200 2) = ([], 200, 2)
   \<and> [(ascii ''e'', 50::nat), (ascii ''ef'', 120), (ascii ''eff '', 200)] \<noteq> []
   \<and> distinct_adj ([] # map fst [(ascii ''e'', 50::nat), (ascii ''ef'', 120), (ascii ''eff '', 200::nat)])
   \<and> list_all (\<lambda>d. d < nat 200) (map snd (butlast [(ascii ''e'', 50::nat), (ascii ''ef'', 120), (ascii ''eff '', 200)]))
   \<and> nat 200 \<le> snd (last [(ascii ''e'', 50::nat), (ascii ''ef'', 120), (ascii ''eff '', 200)])
   \<and> \<not> suspended (fst (last [(ascii ''e'', 50::nat), (ascii ''ef'', 120), (ascii ''eff '', 200::nat)])) 2
   \<and> length (timers (ctrl_run 200 2 [Render (ascii ''e''), Advance 50, Render (ascii ''ef'')]
        (mount_controller [] 200 2))) \<le> 1
   \<and> set (timers (ctrl_run 200 2 [Render (ascii ''ef''), Advance 50] (mount_controller [] 200 2)))
       \<inter> set (timers (ctrl_step 200 2
           (ctrl_run 200 2 [Render (ascii ''ef''), Advance 50] (mount_controller [] 200 2))
           (Render (ascii ''eff'')))) = {}
   \<and> commits (ctrl_run 200 2 (burst [(ascii ''e'', 50::nat), (ascii ''ef'', 120), (ascii ''eff '', 200)])
        (mount_controller [] 200 2)) = [ascii ''eff'']
   \<and> debouncedQuery (ctrl_run 200 2 (burst [(ascii ''e'', 50::nat), (ascii ''ef'', 120), (ascii ''eff '', 200)])
        (mount_controller [] 200 2)) = ascii ''eff''"
proof -
  let ?c = "mount_controller [] 200 2"
  let ?us = "[(ascii ''e'', 50::nat), (ascii ''ef'', 120), (ascii ''eff '', 200::nat)]"
  have inv: "ctrl_inv ?c" by (rule ctrl_inv_mount)
  have deps: "effect_deps ?c = ([], 200, 2)" by (simp add: ctrl_eval)
  have ne: "?us \<noteq> []" by simp
  have ch: "distinct_adj ([] # map fst ?us)" by (simp add: ascii_def)
  have rapid: "list_all (\<lambda>d. d < nat 200) (map snd (butlast ?us))" by simp
  have settle: "nat 200 \<le> snd (last ?us)" by simp
  have ok: "\<not> suspended (fst (last ?us)) 2" by (simp add: ctrl_eval)
  have c0: "commits ?c = []" by (simp add: ctrl_eval)
  have tr: "js_trim (ascii ''eff '') = ascii ''eff''" by (simp add: ctrl_eval)
  note inst = debounce_coalesces [OF inv deps ne ch rapid settle ok]
  have one: "length (timers (ctrl_run 200 2 [Render (ascii ''e''), Advance 50, Render (ascii ''ef'')] ?c)) \<le> 1"
    using inst by blast
  have "fst (effect_deps (ctrl_run 200 2 [Render (ascii ''ef''), Advance 50] ?c)) \<noteq> ascii ''eff''"
    by (simp add: ctrl_eval)
  then have cancel: "set (timers (ctrl_run 200 2 [Render (ascii ''ef''), Advance 50] ?c))
       \<inter> set (timers (ctrl_step 200 2 (ctrl_run 200 2 [Render (ascii ''ef''), Advance 50] ?c)
           (Render (ascii ''eff'')))) = {}"
    using inst by blast
  have fin: "commits (ctrl_run 200 2 (burst ?us) ?c) = [ascii ''eff'']"
    "debouncedQuery (ctrl_run 200 2 (burst ?us) ?c) = ascii ''eff''"
    using inst c0 tr by simp_all
  show ?thesis
    by (intro conjI inv deps ne ch rapid settle ok one cancel fin)
qed

subsection \<open>The flag\<close>

text \<open>
  Claim C9 says that the flag \<^verbatim>\<open>isSearching\<close> is true exactly while a delay is pending.
  The effect sets it when it starts a timer and only the callback of a timer clears it:
  when the cleanup cancels a timer and the effect then returns at once, the flag stays.
  The hook is mounted with an empty query; after 200 ms the raw query becomes \<open>ab\<close>,
  100 ms later \<open>a\<close>. A second later no timer is pending and the flag is still set.
\<close>

theorem isSearching_stuck:
  "timers (ctrl_run 200 2 [Advance 200, Render (ascii ''ab''), Advance 100, Render (ascii ''a''), Advance 1000]
      (mount_controller [] 200 2)) = []
   \<and> isSearching (ctrl_run 200 2 [Advance 200, Render (ascii ''ab''), Advance 100, Render (ascii ''a''), Advance 1000]
      (mount_controller [] 200 2)) = True"
  by (simp add: ctrl_eval)

section \<open>Properties of the hook\<close>

subsection \<open>Renders and invariants\<close>

lemma use_results_index:
  "builds (use_results lib p dq m) = builds m
   \<and> fuse_memo (use_results lib p dq m) = fuse_memo m
   \<and> fuse_memo_deps (use_results lib p dq m) = fuse_memo_deps m"
  by (simp add: use_results_def Let_def split: prod.split)

lemma useFuzzySearch_hit:
  assumes "fuse_memo_deps (memo h) = fuse_deps_of p"
  shows "useFuzzySearch lib p h =
     Inr \<lparr>ctrl = commit_effect (query p) (debounceMs_of (options p)) (minChars_of (options p)) (ctrl h),
          memo = use_results lib p (debouncedQuery (ctrl h)) (memo h),
          last_props = p\<rparr>"
  using assms by (simp add: useFuzzySearch_def use_fuse_def)

lemma useFuzzySearch_Inr:
  assumes "useFuzzySearch lib p h = Inr h'"
  obtains m where "use_fuse lib p (memo h) = Inr m"
    and "h' = \<lparr>ctrl = commit_effect (query p) (debounceMs_of (options p)) (minChars_of (options p)) (ctrl h),
          memo = use_results lib p (debouncedQuery (ctrl h)) m,
          last_props = p\<rparr>"
  using assms by (auto simp add: useFuzzySearch_def split: sum.splits)

lemma use_fuse_deps:
  "use_fuse lib p m = Inr m' \<Longrightarrow> fuse_memo_deps m' = fuse_deps_of p"
  by (auto simp add: use_fuse_def split: if_splits sum.splits)

lemma useFuzzySearch_current:
  assumes "useFuzzySearch lib p h = Inr h'"
  shows "index_current h'" and "last_props h' = p"
  using assms
  by (auto elim!: useFuzzySearch_Inr simp add: index_current_def use_results_index use_fuse_deps)

lemma mount_Inr:
  assumes "useFuzzySearch_mount lib p = Inr h"
  obtains idx where
    "new_Fuse lib (content (items p)) (fuse_options (content (keys p)) (threshold_of (options p))) = Inr idx"
    and "h = \<lparr>ctrl = mount_controller (query p) (debounceMs_of (options p)) (minChars_of (options p)),
              memo = \<lparr>fuse_memo_deps = fuse_deps_of p, fuse_memo = (1, idx),
                      results_memo_deps = (1, query p, addr (items p), minChars_of (options p)),
                      results_memo = fst (compute_results lib idx (content (items p)) (query p)
                                           (minChars_of (options p))),
                      builds = 1,
                      searches = snd (compute_results lib idx (content (items p)) (query p)
                                           (minChars_of (options p)))\<rparr>,
              last_props = p\<rparr>"
  using assms
  by (auto simp add: useFuzzySearch_mount_def Let_def split: sum.splits prod.splits)

lemma mount_current:
  assumes "useFuzzySearch_mount lib p = Inr h"
  shows "index_current h" and "last_props h = p"
  using assms by (auto elim!: mount_Inr simp add: index_current_def)

lemma hook_step_current:
  assumes "hook_step lib h e = Inr h'"
  shows "index_current h'"
  using assms by (cases e) (auto simp add: hook_advance_def dest: useFuzzySearch_current(1))

lemma hook_run_current:
  assumes "hook_run lib evs h = Inr h'" and "index_current h"
  shows "index_current h'"
  using assms
proof (induction evs arbitrary: h)
  case Nil
  then show ?case by simp
next
  case (Cons e evs)
  then obtain h1 where h1: "hook_step lib h e = Inr h1" "hook_run lib evs h1 = Inr h'"
    by (auto split: sum.splits)
  then show ?case using Cons.IH hook_step_current by blast
qed

lemma reaches_current:
  assumes "reaches lib p evs h"
  shows "index_current h"
  using assms mount_current(1) hook_run_current
  by (fastforce simp add: reaches_def split: sum.splits)

lemma step_keeps_index:
  assumes "index_current h" and "same_index_inputs (last_props h) e"
  shows "\<exists>h'. hook_step lib h e = Inr h' \<and> builds (memo h') = builds (memo h)
            \<and> fuse_memo (memo h') = fuse_memo (memo h)
            \<and> index_current h' \<and> fuse_deps_of (last_props h') = fuse_deps_of (last_props h)"
proof (cases e)
  case (Rerender p')
  then have same: "fuse_deps_of p' = fuse_deps_of (last_props h)" using assms(2) by simp
  then have "fuse_memo_deps (memo h) = fuse_deps_of p'"
    using assms(1) by (simp add: index_current_def)
  then show ?thesis using Rerender same
    by (simp add: useFuzzySearch_hit use_results_index index_current_def)
next
  case (Wait d)
  have "fuse_memo_deps (memo (h\<lparr>ctrl := advance d (ctrl h)\<rparr>)) = fuse_deps_of (last_props h)"
    using assms(1) by (simp add: index_current_def)
  then show ?thesis using Wait assms(1)
    by (simp add: hook_advance_def useFuzzySearch_hit use_results_index index_current_def)
qed

lemma run_keeps_index:
  assumes "index_current h" and "list_all (same_index_inputs (last_props h)) evs"
  shows "\<exists>h'. hook_run lib evs h = Inr h' \<and> builds (memo h') = builds (memo h)
            \<and> fuse_memo (memo h') = fuse_memo (memo h)"
  using assms
proof (induction evs arbitrary: h)
  case Nil
  then show ?case by simp
next
  case (Cons e evs)
  have e: "same_index_inputs (last_props h) e" and evs: "list_all (same_index_inputs (last_props h)) evs"
    using Cons.prems(2) by simp_all
  obtain h1 where h1: "hook_step lib h e = Inr h1" "builds (memo h1) = builds (memo h)"
      "fuse_memo (memo h1) = fuse_memo (memo h)" "index_current h1"
      "fuse_deps_of (last_props h1) = fuse_deps_of (last_props h)"
    using step_keeps_index [OF Cons.prems(1) e] by blast
  have "same_index_inputs (last_props h1) = same_index_inputs (last_props h)"
  proof
    fix x show "same_index_inputs (last_props h1) x = same_index_inputs (last_props h) x"
      using h1(5) by (cases x) simp_all
  qed
  then have "list_all (same_index_inputs (last_props h1)) evs" using evs by simp
  then obtain h' where "hook_run lib evs h1 = Inr h'" "builds (memo h') = builds (memo h1)"
      "fuse_memo (memo h') = fuse_memo (memo h1)"
    using Cons.IH [OF h1(4)] by blast
  then show ?case using h1 by simp
qed

lemma use_results_unfold:
  "use_results lib p dq m =
     (if results_memo_deps m = results_deps_of m p dq then m
      else m\<lparr>results_memo_deps := results_deps_of m p dq,
             results_memo := fst (compute_results lib (snd (fuse_memo m)) (content (items p)) dq
                                   (minChars_of (options p))),
             searches := searches m @ snd (compute_results lib (snd (fuse_memo m)) (content (items p)) dq
                                   (minChars_of (options p)))\<rparr>)"
  by (simp add: use_results_def Let_def split: prod.split)

lemma compute_results_short:
  "short_query dq mc \<Longrightarrow> compute_results lib idx its dq mc = (map unranked its, [])"
  by (auto simp add: compute_results_def short_query_def Let_def)

lemma compute_results_flags: "flags_ok (fst (compute_results lib idx its dq mc))"
  by (simp add: compute_results_def flags_ok_def Let_def list_all_iff unranked_def scored_def)

lemma use_results_flags:
  "flags_ok (results_memo m) \<Longrightarrow> flags_ok (results_memo (use_results lib p dq m))"
  using compute_results_flags [of lib "snd (fuse_memo m)" "content (items p)" dq "minChars_of (options p)"]
  by (simp add: use_results_unfold)

lemma use_fuse_results:
  "use_fuse lib p m = Inr m' \<Longrightarrow>
   results_memo m' = results_memo m \<and> results_memo_deps m' = results_memo_deps m
   \<and> searches m' = searches m"
  by (auto simp add: use_fuse_def split: if_splits sum.splits)

lemma useFuzzySearch_flags:
  assumes "useFuzzySearch lib p h = Inr h'" and "flags_ok (results_memo (memo h))"
  shows "flags_ok (results_memo (memo h'))"
  using assms by (auto elim!: useFuzzySearch_Inr simp add: use_results_flags use_fuse_results)

lemma hook_step_flags:
  assumes "hook_step lib h e = Inr h'" and "flags_ok (results_memo (memo h))"
  shows "flags_ok (results_memo (memo h'))"
proof (cases e)
  case (Rerender p)
  then show ?thesis using assms useFuzzySearch_flags by auto
next
  case (Wait d)
  then have "useFuzzySearch lib (last_props h) (h\<lparr>ctrl := advance d (ctrl h)\<rparr>) = Inr h'"
    using assms(1) by (simp add: hook_advance_def)
  then show ?thesis using assms(2) useFuzzySearch_flags [of lib _ "h\<lparr>ctrl := advance d (ctrl h)\<rparr>" h']
    by simp
qed

lemma hook_run_flags:
  assumes "hook_run lib evs h = Inr h'" and "flags_ok (results_memo (memo h))"
  shows "flags_ok (results_memo (memo h'))"
  using assms
proof (induction evs arbitrary: h)
  case Nil
  then show ?case by simp
next
  case (Cons e evs)
  then obtain h1 where h1: "hook_step lib h e = Inr h1" "hook_run lib evs h1 = Inr h'"
    by (auto split: sum.splits)
  then show ?case using Cons.IH Cons.prems(2) hook_step_flags by blast
qed

lemma reaches_flags:
  assumes "reaches lib p evs h"
  shows "flags_ok (results_memo (memo h))"
proof -
  obtain h0 where h0: "useFuzzySearch_mount lib p = Inr h0" "hook_run lib evs h0 = Inr h"
    using assms by (auto simp add: reaches_def split: sum.splits)
  have "flags_ok (results_memo (memo h0))"
    using h0(1) by (auto elim!: mount_Inr simp add: compute_results_flags)
  then show ?thesis using h0(2) hook_run_flags by blast
qed

lemma commit_effect_debouncedQuery:
  "debouncedQuery (commit_effect q dm mc c) = debouncedQuery c"
  by (simp add: commit_effect_def effect_def cleanup_def Let_def split: option.split)

lemma use_results_short:
  assumes "short_query dq (minChars_of (options p))"
  shows "searches (use_results lib p dq m) = searches m"
  using assms by (simp add: use_results_unfold compute_results_short)

lemma use_results_current:
  "results_memo_deps (use_results lib p dq m) = results_deps_of m p dq"
  by (simp add: use_results_def Let_def results_deps_of_def split: prod.split)

lemma useFuzzySearch_no_search:
  assumes "useFuzzySearch lib p h = Inr h'"
    and "short_query (debouncedQuery (ctrl h')) (minChars_of (options (last_props h')))"
  shows "searches (memo h') = searches (memo h)"
  using assms
  by (auto elim!: useFuzzySearch_Inr
      simp add: commit_effect_debouncedQuery use_results_short use_fuse_results)

lemma hook_step_no_search:
  assumes "hook_step lib h e = Inr h'"
    and "short_query (debouncedQuery (ctrl h')) (minChars_of (options (last_props h')))"
  shows "searches (memo h') = searches (memo h)"
proof (cases e)
  case (Rerender p)
  then show ?thesis using assms useFuzzySearch_no_search by auto
next
  case (Wait d)
  then have "useFuzzySearch lib (last_props h) (h\<lparr>ctrl := advance d (ctrl h)\<rparr>) = Inr h'"
    using assms(1) by (simp add: hook_advance_def)
  then have "searches (memo h') = searches (memo (h\<lparr>ctrl := advance d (ctrl h)\<rparr>))"
    using assms(2) by (rule useFuzzySearch_no_search)
  then show ?thesis by simp
qed

lemma useFuzzySearch_results_current:
  assumes "useFuzzySearch lib p h = Inr h'"
    and "results_current lib h0"
    and "memo h = memo h0" and "last_props h = last_props h0"
    and "addr (items p) = addr (items (last_props h0)) \<longrightarrow>
         content (items p) = content (items (last_props h0))"
  shows "results_current lib h'"
proof -
  obtain m where m: "use_fuse lib p (memo h) = Inr m"
    and h': "h' = \<lparr>ctrl = commit_effect (query p) (debounceMs_of (options p)) (minChars_of (options p)) (ctrl h),
          memo = use_results lib p (debouncedQuery (ctrl h)) m,
          last_props = p\<rparr>"
    using assms(1) by (rule useFuzzySearch_Inr)
  let ?dq = "debouncedQuery (ctrl h)"
  let ?mc = "minChars_of (options p)"
  have dq: "debouncedQuery (ctrl h') = ?dq" by (simp add: h' commit_effect_debouncedQuery)
  have deps: "results_memo_deps (memo h') = results_deps_of (memo h') p ?dq"
    by (simp add: h' use_results_unfold results_deps_of_def)
  have val: "results_memo (memo h')
      = fst (compute_results lib (snd (fuse_memo (memo h'))) (content (items p)) ?dq ?mc)"
  proof (cases "results_memo_deps m = results_deps_of m p ?dq")
    case False
    then show ?thesis by (simp add: h' use_results_unfold)
  next
    case True
    have keep: "results_memo m = results_memo (memo h0)" "results_memo_deps m = results_memo_deps (memo h0)"
      using use_fuse_results [OF m] assms(3) by simp_all
    have old: "results_memo_deps (memo h0)
        = (fst (fuse_memo (memo h0)), debouncedQuery (ctrl h0), addr (items (last_props h0)),
           minChars_of (options (last_props h0)))"
      using assms(2) by (simp add: results_current_def results_deps_of_def)
    then have same: "fst (fuse_memo m) = fst (fuse_memo (memo h0))" "?dq = debouncedQuery (ctrl h0)"
      "addr (items p) = addr (items (last_props h0))" "?mc = minChars_of (options (last_props h0))"
      using True keep(2) by (simp_all add: results_deps_of_def)
    have "fst (fuse_memo (memo h0)) = builds (memo h0)"
      using assms(2) by (simp add: results_current_def)
    then have "fuse_memo m = fuse_memo (memo h0)"
      using m same(1) assms(3) by (auto simp add: use_fuse_def split: if_splits sum.splits)
    moreover have "content (items p) = content (items (last_props h0))"
      using assms(5) same(3) by simp
    ultimately have "fst (compute_results lib (snd (fuse_memo m)) (content (items p)) ?dq ?mc)
        = results_memo (memo h0)"
      using assms(2) same(2,4) by (simp add: results_current_def)
    then show ?thesis using True keep(1) by (simp add: h' use_results_unfold)
  qed
  have "fst (fuse_memo (memo h0)) = builds (memo h0)"
    using assms(2) by (simp add: results_current_def)
  then have "fst (fuse_memo m) = builds m"
    using m assms(3) by (auto simp add: use_fuse_def split: if_splits sum.splits)
  then have id: "fst (fuse_memo (memo h')) = builds (memo h')"
    by (simp add: h' use_results_index)
  show ?thesis using id deps val dq by (simp add: results_current_def h')
qed

lemma mount_controller_fresh:
  "debouncedQuery (mount_controller q dm mc) = q \<and> commits (mount_controller q dm mc) = []
   \<and> clock (mount_controller q dm mc) = 0"
  by (simp add: mount_controller_def effect_def Let_def)

lemma mount_results_current:
  assumes "useFuzzySearch_mount lib p = Inr h"
  shows "results_current lib h"
  using assms
  by (auto elim!: mount_Inr
      simp add: results_current_def results_deps_of_def mount_controller_fresh)

lemma hook_step_results_current:
  assumes "hook_step lib h e = Inr h'" and "results_current lib h"
    and "items_immutable (items (last_props h)) [e]"
  shows "results_current lib h'"
proof (cases e)
  case (Rerender p)
  then have "useFuzzySearch lib p h = Inr h'" using assms(1) by simp
  then show ?thesis using assms(2,3) Rerender
    by (intro useFuzzySearch_results_current [of lib p h h' h]) simp_all
next
  case (Wait d)
  then have "useFuzzySearch lib (last_props h) (h\<lparr>ctrl := advance d (ctrl h)\<rparr>) = Inr h'"
    using assms(1) by (simp add: hook_advance_def)
  then show ?thesis using assms(2)
    by (intro useFuzzySearch_results_current [of lib "last_props h" "h\<lparr>ctrl := advance d (ctrl h)\<rparr>" h' h])
       simp_all
qed

lemma hook_step_last_items:
  assumes "hook_step lib h e = Inr h'"
  shows "items (last_props h') = (case e of Rerender p \<Rightarrow> items p | Wait d \<Rightarrow> items (last_props h))"
proof (cases e)
  case (Rerender p)
  then show ?thesis using assms useFuzzySearch_current(2) by fastforce
next
  case (Wait d)
  then have "useFuzzySearch lib (last_props h) (h\<lparr>ctrl := advance d (ctrl h)\<rparr>) = Inr h'"
    using assms(1) by (simp add: hook_advance_def)
  then have "last_props h' = last_props h" by (rule useFuzzySearch_current(2))
  then show ?thesis using Wait by simp
qed

lemma hook_run_results_current:
  assumes "hook_run lib evs h = Inr h'" and "results_current lib h"
    and "items_immutable (items (last_props h)) evs"
  shows "results_current lib h'"
  using assms
proof (induction evs arbitrary: h)
  case Nil
  then show ?case by simp
next
  case (Cons e evs)
  obtain h1 where h1: "hook_step lib h e = Inr h1" "hook_run lib evs h1 = Inr h'"
    using Cons.prems(1) by (auto split: sum.splits)
  have e: "items_immutable (items (last_props h)) [e]"
    using Cons.prems(3) by (cases e) simp_all
  have 1: "results_current lib h1"
    using h1(1) Cons.prems(2) e by (rule hook_step_results_current)
  have "items_immutable (items (last_props h1)) evs"
    using Cons.prems(3) hook_step_last_items [OF h1(1)] by (cases e) simp_all
  then show ?case using Cons.IH [OF h1(2) 1] by simp
qed

lemma hook_run_snoc:
  "hook_run lib (es @ [e]) h =
     (case hook_run lib es h of Inl err \<Rightarrow> Inl err | Inr h1 \<Rightarrow> hook_step lib h1 e)"
  by (induction es arbitrary: h) (simp_all split: sum.splits)

lemmas hook_eval = useFuzzySearch_mount_def useFuzzySearch_def use_fuse_def use_results_unfold
  compute_results_def hook_advance_def hook_output_def demo_lib_def demo_props_def
  fuse_deps_of_def results_deps_of_def threshold_of_def debounceMs_of_def minChars_of_def
  fuse_options_def unranked_def scored_def short_query_def

lemma demo_mount:
  "\<exists>h. useFuzzySearch_mount demo_lib (demo_props q) = Inr h"
  by (simp add: useFuzzySearch_mount_def demo_lib_def Let_def split: prod.split)

lemma commit_effect_deps: "effect_deps (commit_effect q dm mc c) = (q, dm, mc)"
  by (simp add: commit_effect_def effect_def Let_def)

lemma useFuzzySearch_deps_current:
  assumes "useFuzzySearch lib p h = Inr h'"
  shows "deps_current h'"
proof -
  obtain m where m: "use_fuse lib p (memo h) = Inr m"
    and h': "h' = \<lparr>ctrl = commit_effect (query p) (debounceMs_of (options p)) (minChars_of (options p)) (ctrl h),
          memo = use_results lib p (debouncedQuery (ctrl h)) m,
          last_props = p\<rparr>"
    using assms by (rule useFuzzySearch_Inr)
  have "results_memo_deps (use_results lib p (debouncedQuery (ctrl h)) m)
      = results_deps_of (use_results lib p (debouncedQuery (ctrl h)) m) p (debouncedQuery (ctrl h))"
    by (simp add: use_results_unfold results_deps_of_def)
  then show ?thesis
    using use_fuse_deps [OF m]
    by (simp add: deps_current_def h' use_results_index commit_effect_deps commit_effect_debouncedQuery)
qed

lemma mount_deps_current:
  assumes "useFuzzySearch_mount lib p = Inr h"
  shows "deps_current h"
  using assms
  by (auto elim!: mount_Inr
      simp add: deps_current_def results_deps_of_def mount_controller_fresh
        mount_controller_def effect_def Let_def)

lemma hook_step_deps_current:
  assumes "hook_step lib h e = Inr h'"
  shows "deps_current h'"
  using assms by (cases e) (auto simp add: hook_advance_def dest: useFuzzySearch_deps_current)

lemma reaches_deps_current:
  assumes "reaches lib p evs h"
  shows "deps_current h"
proof -
  obtain h0 where h0: "useFuzzySearch_mount lib p = Inr h0" "hook_run lib evs h0 = Inr h"
    using assms by (auto simp add: reaches_def split: sum.splits)
  show ?thesis
  proof (cases evs rule: rev_cases)
    case Nil
    then show ?thesis using h0 mount_deps_current by auto
  next
    case (snoc es e)
    then obtain h1 where "hook_step lib h1 e = Inr h"
      using h0(2) by (auto simp add: hook_run_snoc split: sum.splits)
    then show ?thesis by (rule hook_step_deps_current)
  qed
qed

text \<open>A render with the arguments of the last one changes nothing.\<close>

lemma useFuzzySearch_idle:
  assumes "deps_current h"
  shows "useFuzzySearch lib (last_props h) h = Inr h"
proof -
  have "commit_effect (query (last_props h)) (debounceMs_of (options (last_props h)))
          (minChars_of (options (last_props h))) (ctrl h) = ctrl h"
    using assms by (simp add: deps_current_def commit_effect_same)
  moreover have "use_results lib (last_props h) (debouncedQuery (ctrl h)) (memo h) = memo h"
    using assms by (simp add: deps_current_def use_results_unfold)
  ultimately show ?thesis
    using assms by (simp add: useFuzzySearch_hit deps_current_def)
qed

lemma useFuzzySearch_again:
  "useFuzzySearch lib p h = Inr h' \<Longrightarrow> useFuzzySearch lib p h' = Inr h'"
  using useFuzzySearch_idle [of h' lib] useFuzzySearch_deps_current [of lib p h h']
    useFuzzySearch_current(2) [of lib p h h']
  by simp

lemma useFuzzySearch_mount_again:
  "useFuzzySearch_mount lib p = Inr h \<Longrightarrow> useFuzzySearch lib p h = Inr h"
  using useFuzzySearch_idle [of h lib] mount_deps_current [of lib p h] mount_current(2) [of lib p h]
  by simp

lemma foldl_fire_effect_deps: "effect_deps (foldl fire c ts) = effect_deps c"
  by (induction ts arbitrary: c) (simp_all add: fire_def)

lemma advance_effect_deps: "effect_deps (advance d c) = effect_deps c"
  by (simp add: advance_def Let_def foldl_fire_effect_deps)

lemma hook_step_ctrl:
  assumes "hook_step lib h e = Inr h'" and "deps_current h"
    and "debounceMs_of (options (last_props h)) = dm" and "minChars_of (options (last_props h)) = mc"
    and "same_delays dm mc e"
  shows "ctrl h' = ctrl_step dm mc (ctrl h) (ctrl_event e)
       \<and> debounceMs_of (options (last_props h')) = dm \<and> minChars_of (options (last_props h')) = mc"
proof (cases e)
  case (Rerender p)
  then have "useFuzzySearch lib p h = Inr h'" using assms(1) by simp
  then show ?thesis using Rerender assms(5)
    by (auto elim!: useFuzzySearch_Inr)
next
  case (Wait d)
  let ?h1 = "h\<lparr>ctrl := advance d (ctrl h)\<rparr>"
  have u: "useFuzzySearch lib (last_props h) ?h1 = Inr h'"
    using assms(1) Wait by (simp add: hook_advance_def)
  have "effect_deps (advance d (ctrl h)) = (query (last_props h), dm, mc)"
    using assms(2,3,4) by (simp add: advance_effect_deps deps_current_def)
  then have "commit_effect (query (last_props h)) dm mc (advance d (ctrl h)) = advance d (ctrl h)"
    by (rule commit_effect_same)
  then show ?thesis using u Wait assms(3,4)
    by (auto elim!: useFuzzySearch_Inr)
qed

lemma hook_run_ctrl:
  assumes "hook_run lib evs h = Inr h'" and "deps_current h"
    and "debounceMs_of (options (last_props h)) = dm" and "minChars_of (options (last_props h)) = mc"
    and "list_all (same_delays dm mc) evs"
  shows "ctrl h' = ctrl_run dm mc (map ctrl_event evs) (ctrl h)"
  using assms
proof (induction evs arbitrary: h)
  case Nil
  then show ?case by (simp add: ctrl_run_Nil)
next
  case (Cons e evs)
  obtain h1 where h1: "hook_step lib h e = Inr h1" "hook_run lib evs h1 = Inr h'"
    using Cons.prems(1) by (auto split: sum.splits)
  have e: "same_delays dm mc e" and es: "list_all (same_delays dm mc) evs"
    using Cons.prems(5) by simp_all
  have s: "ctrl h1 = ctrl_step dm mc (ctrl h) (ctrl_event e)
       \<and> debounceMs_of (options (last_props h1)) = dm \<and> minChars_of (options (last_props h1)) = mc"
    using h1(1) Cons.prems(2,3,4) e by (rule hook_step_ctrl)
  have "ctrl h' = ctrl_run dm mc (map ctrl_event evs) (ctrl h1)"
    using h1(2) hook_step_deps_current [OF h1(1)] s es by (intro Cons.IH) simp_all
  then show ?case using s by (simp add: ctrl_run_Cons)
qed

text \<open>
  The debounce of the hook is the debounce taken alone: while the options stay the same,
  the hook's first render and its events leave the state that \<open>mount_controller\<close> and
  \<open>ctrl_run\<close> compute.
\<close>

lemma reaches_ctrl:
  assumes "reaches lib p evs h"
    and "list_all (same_delays (debounceMs_of (options p)) (minChars_of (options p))) evs"
  shows "ctrl h = ctrl_run (debounceMs_of (options p)) (minChars_of (options p)) (map ctrl_event evs)
                    (mount_controller (query p) (debounceMs_of (options p)) (minChars_of (options p)))"
proof -
  obtain h0 where h0: "useFuzzySearch_mount lib p = Inr h0" "hook_run lib evs h0 = Inr h"
    using assms(1) by (auto simp add: reaches_def split: sum.splits)
  have c: "ctrl h0 = mount_controller (query p) (debounceMs_of (options p)) (minChars_of (options p))"
    using h0(1) by (auto elim!: mount_Inr)
  have "ctrl h = ctrl_run (debounceMs_of (options p)) (minChars_of (options p)) (map ctrl_event evs) (ctrl h0)"
    using h0(2) mount_deps_current [OF h0(1)] mount_current(2) [OF h0(1)] assms(2)
    by (intro hook_run_ctrl) simp_all
  then show ?thesis using c by simp
qed

lemma reaches_ctrl_inv:
  assumes "reaches lib p evs h"
  shows "ctrl_inv (ctrl h)"
proof -
  obtain h0 where h0: "useFuzzySearch_mount lib p = Inr h0" "hook_run lib evs h0 = Inr h"
    using assms(1) by (auto simp add: reaches_def split: sum.splits)
  have 0: "ctrl_inv (ctrl h0)" using h0(1) by (auto elim!: mount_Inr simp add: ctrl_inv_mount)
  have step: "\<And>h e h'. hook_step lib h e = Inr h' \<Longrightarrow> ctrl_inv (ctrl h) \<Longrightarrow> ctrl_inv (ctrl h')"
  proof -
    fix h :: "('a, 'b) hook" and e h'
    assume a: "hook_step lib h e = Inr h'" "ctrl_inv (ctrl h)"
    show "ctrl_inv (ctrl h')"
    proof (cases e)
      case (Rerender p)
      then show ?thesis using a by (auto elim!: useFuzzySearch_Inr simp add: ctrl_inv_commit_effect)
    next
      case (Wait d)
      then show ?thesis using a
        by (auto elim!: useFuzzySearch_Inr
            simp add: hook_advance_def ctrl_inv_commit_effect ctrl_inv_advance)
    qed
  qed
  have "\<And>h. hook_run lib evs h = Inr h' \<Longrightarrow> ctrl_inv (ctrl h) \<Longrightarrow> ctrl_inv (ctrl h')" for h'
  proof (induction evs)
    case Nil
    then show ?case by simp
  next
    case (Cons e evs)
    then obtain h1 where "hook_step lib h e = Inr h1" "hook_run lib evs h1 = Inr h'"
      by (auto split: sum.splits)
    then show ?case using Cons step by blast
  qed
  then show ?thesis using h0(2) 0 by blast
qed

lemma idle_run:
  assumes "deps_current g" and "timers (ctrl g) = []" and "list_all (keeps_props (last_props g)) es"
  shows "\<exists>g'. hook_run lib es g = Inr g' \<and> memo g' = memo g \<and> last_props g' = last_props g
            \<and> (\<exists>k. ctrl g' = (ctrl g)\<lparr>clock := k\<rparr>)"
  using assms
proof (induction es arbitrary: g)
  case Nil
  have "ctrl g = (ctrl g)\<lparr>clock := clock (ctrl g)\<rparr>" by simp
  then have "\<exists>k. ctrl g = (ctrl g)\<lparr>clock := k\<rparr>" by (rule exI)
  then show ?case by simp
next
  case (Cons e es)
  have es: "list_all (keeps_props (last_props g)) es" using Cons.prems(3) by simp
  show ?case
  proof (cases e)
    case (Rerender p)
    then have "p = last_props g" using Cons.prems(3) by simp
    then have "hook_step lib g e = Inr g"
      using Rerender useFuzzySearch_idle [OF Cons.prems(1)] by simp
    then show ?thesis using Cons.IH [OF Cons.prems(1,2) es] by simp
  next
    case (Wait d)
    let ?g2 = "g\<lparr>ctrl := (ctrl g)\<lparr>clock := clock (ctrl g) + d\<rparr>\<rparr>"
    have adv: "advance d (ctrl g) = (ctrl g)\<lparr>clock := clock (ctrl g) + d\<rparr>"
      using Cons.prems(2) by (rule advance_idle)
    have d2: "deps_current ?g2" using Cons.prems(1) by (simp add: deps_current_def)
    have "useFuzzySearch lib (last_props ?g2) ?g2 = Inr ?g2" using d2 by (rule useFuzzySearch_idle)
    then have step: "hook_step lib g e = Inr ?g2"
      using Wait adv by (simp add: hook_advance_def)
    have "\<exists>g'. hook_run lib es ?g2 = Inr g' \<and> memo g' = memo ?g2 \<and> last_props g' = last_props ?g2
            \<and> (\<exists>k. ctrl g' = (ctrl ?g2)\<lparr>clock := k\<rparr>)"
      using d2 Cons.prems(2) es by (intro Cons.IH) simp_all
    then obtain g' k where g': "hook_run lib es ?g2 = Inr g'" "memo g' = memo g"
        "last_props g' = last_props g" "ctrl g' = (ctrl ?g2)\<lparr>clock := k\<rparr>"
      by auto
    have "ctrl g' = (ctrl g)\<lparr>clock := k\<rparr>" using g'(4) by simp
    then show ?thesis using step g'(1,2,3) by auto
  qed
qed

subsection \<open>The index is built once\<close>

text \<open>
  Claim C1. The Fuse instance is constructed only when \<^verbatim>\<open>items\<close>, the keys or the
  threshold change: from any state the hook reaches, renders with the same two arrays and
  the same threshold, whatever their raw queries, and any passing of time go through
  without a construction; the number of constructions and the instance stay what they
  were. The query is not among the dependencies of the construction: a render constructs
  exactly when one of the two arrays or the threshold is not the one of the render before.
\<close>

theorem index_not_rebuilt:
  assumes "reaches lib p evs h" and "list_all (same_index_inputs (last_props h)) evs'"
  shows "(\<exists>h'. hook_run lib evs' h = Inr h' \<and> builds (memo h') = builds (memo h)
            \<and> fuse_memo (memo h') = fuse_memo (memo h))
       \<and> (\<forall>p' h'. useFuzzySearch lib p' h = Inr h' \<longrightarrow>
            builds (memo h') =
              (if fuse_deps_of p' = fuse_deps_of (last_props h) then builds (memo h)
               else Suc (builds (memo h))))"
proof
  show "\<exists>h'. hook_run lib evs' h = Inr h' \<and> builds (memo h') = builds (memo h)
            \<and> fuse_memo (memo h') = fuse_memo (memo h)"
    using run_keeps_index [OF reaches_current [OF assms(1)] assms(2)] .
next
  have cur: "fuse_memo_deps (memo h) = fuse_deps_of (last_props h)"
    using reaches_current [OF assms(1)] by (simp add: index_current_def)
  show "\<forall>p' h'. useFuzzySearch lib p' h = Inr h' \<longrightarrow>
            builds (memo h') =
              (if fuse_deps_of p' = fuse_deps_of (last_props h) then builds (memo h)
               else Suc (builds (memo h)))"
  proof (intro allI impI)
    fix p' h' assume "useFuzzySearch lib p' h = Inr h'"
    then obtain m where m: "use_fuse lib p' (memo h) = Inr m"
      and h': "h' = \<lparr>ctrl = commit_effect (query p') (debounceMs_of (options p'))
                          (minChars_of (options p')) (ctrl h),
          memo = use_results lib p' (debouncedQuery (ctrl h)) m,
          last_props = p'\<rparr>"
      by (rule useFuzzySearch_Inr)
    have "builds m = (if fuse_deps_of p' = fuse_deps_of (last_props h) then builds (memo h)
               else Suc (builds (memo h)))"
      using m cur by (auto simp add: use_fuse_def split: if_splits sum.splits)
    then show "builds (memo h') =
              (if fuse_deps_of p' = fuse_deps_of (last_props h) then builds (memo h)
               else Suc (builds (memo h)))"
      by (simp add: h' use_results_index)
  qed
qed

theorem index_not_rebuilt_witness:
  "\<exists>h h'. reaches demo_lib (demo_props ''e'') [] h
     \<and> list_all (same_index_inputs (last_props h))
          [Rerender (demo_props ''ef''), Wait 200, Rerender (demo_props ''eff''), Wait 50,
           Rerender (demo_props ''''), Wait 200]
     \<and> hook_run demo_lib
          [Rerender (demo_props ''ef''), Wait 200, Rerender (demo_props ''eff''), Wait 50,
           Rerender (demo_props ''''), Wait 200] h = Inr h'
     \<and> builds (memo h) = 1 \<and> builds (memo h') = 1"
proof -
  let ?evs = "[Rerender (demo_props ''ef''), Wait 200, Rerender (demo_props ''eff''), Wait 50,
           Rerender (demo_props ''''), Wait 200]"
  obtain h where h: "useFuzzySearch_mount demo_lib (demo_props ''e'') = Inr h"
    using demo_mount by blast
  have r: "reaches demo_lib (demo_props ''e'') [] h" by (simp add: reaches_def h)
  have lp: "last_props h = demo_props ''e''" using h by (rule mount_current(2))
  have same: "list_all (same_index_inputs (last_props h)) ?evs"
    by (simp add: lp demo_props_def fuse_deps_of_def)
  have b: "builds (memo h) = 1" using h by (auto elim!: mount_Inr)
  obtain h' where "hook_run demo_lib ?evs h = Inr h'" "builds (memo h') = builds (memo h)"
    using index_not_rebuilt [OF r same] by blast
  then show ?thesis using r same b by auto
qed

subsection \<open>The mode flag\<close>

text \<open>
  Claim C3. In every state the hook reaches, the flag \<^verbatim>\<open>isFuzzyMode\<close> that it returns is
  true if and only if the trimmed committed query has at least \<^verbatim>\<open>minChars\<close> characters
  and at least one scored result has a score strictly greater than 0.05.
\<close>

theorem isFuzzyMode_iff:
  assumes "reaches lib p evs h"
  shows "out_isFuzzyMode (hook_output h) \<longleftrightarrow>
     (minChars_of (options (last_props h)) \<le> int (length (js_trim (out_debouncedQuery (hook_output h))))
      \<and> (\<exists>r\<in>set (out_fuzzyResults (hook_output h)). 0.05 < score r))"
proof -
  let ?rs = "results_memo (memo h)"
  have "flags_ok ?rs" using assms by (rule reaches_flags)
  then have "list_ex isFuzzy ?rs \<longleftrightarrow> (\<exists>r\<in>set ?rs. 0.05 < score r)"
    by (simp add: flags_ok_def list_all_iff list_ex_iff)
  moreover have "(\<exists>r\<in>set ?rs. 0.05 < score r) \<Longrightarrow> 0 < length ?rs" by auto
  ultimately show ?thesis by (auto simp add: hook_output_def Let_def)
qed

theorem isFuzzyMode_iff_witness:
  "\<exists>h. reaches demo_lib (demo_props ''ef'') [] h
     \<and> out_isFuzzyMode (hook_output h)
     \<and> 2 \<le> int (length (js_trim (out_debouncedQuery (hook_output h))))
     \<and> (\<exists>r\<in>set (out_fuzzyResults (hook_output h)). 0.05 < score r)"
proof -
  obtain h where h: "useFuzzySearch_mount demo_lib (demo_props ''ef'') = Inr h"
    using demo_mount by blast
  have r: "reaches demo_lib (demo_props ''ef'') [] h" by (simp add: reaches_def h)
  have lp: "minChars_of (options (last_props h)) = 2"
    using mount_current(2) [OF h] by (simp add: demo_props_def minChars_of_def)
  have "out_isFuzzyMode (hook_output h)"
    using h by (auto elim!: mount_Inr simp add: hook_eval ctrl_eval)
  then show ?thesis using isFuzzyMode_iff [OF r] r lp by auto
qed

subsection \<open>The bypass\<close>

text \<open>
  Claim C4. Whenever the trimmed committed query is empty or shorter than \<^verbatim>\<open>minChars\<close>,
  the hook returns the items as they are, in their order, each with the score 0, without
  matches and with \<^verbatim>\<open>isFuzzy\<close> false, and the render has sent no query to the index:
  the queries sent are those sent before the last event (none, at the first render). Arrays
  are taken not to be mutated in place, as the hook compares them by identity.
\<close>

theorem short_query_returns_items:
  assumes "reaches lib p evs h" and "items_immutable (items p) evs"
    and "short_query (debouncedQuery (ctrl h)) (minChars_of (options (last_props h)))"
  shows "out_results (hook_output h) = content (items (last_props h))
       \<and> out_fuzzyResults (hook_output h) = map unranked (content (items (last_props h)))
       \<and> \<not> out_isFuzzyMode (hook_output h)
       \<and> (evs = [] \<longrightarrow> searches (memo h) = [])
       \<and> (\<forall>h1. evs \<noteq> [] \<and> reaches lib p (butlast evs) h1 \<longrightarrow> searches (memo h) = searches (memo h1))"
proof -
  obtain h0 where h0: "useFuzzySearch_mount lib p = Inr h0" "hook_run lib evs h0 = Inr h"
    using assms(1) by (auto simp add: reaches_def split: sum.splits)
  have "last_props h0 = p" using h0(1) by (rule mount_current(2))
  then have "results_current lib h"
    using hook_run_results_current [OF h0(2) mount_results_current [OF h0(1)]] assms(2) by simp
  then have rs: "results_memo (memo h) = map unranked (content (items (last_props h)))"
    using assms(3) by (simp add: results_current_def compute_results_short)
  have 1: "out_results (hook_output h) = content (items (last_props h))"
    by (simp add: hook_output_def Let_def rs unranked_def comp_def)
  have 2: "out_fuzzyResults (hook_output h) = map unranked (content (items (last_props h)))"
    by (simp add: hook_output_def Let_def rs)
  have 3: "\<not> out_isFuzzyMode (hook_output h)"
    by (simp add: hook_output_def Let_def rs unranked_def list_ex_iff)
  have 4: "evs = [] \<longrightarrow> searches (memo h) = []"
  proof
    assume "evs = []"
    then have "h = h0" using h0(2) by simp
    then have "short_query (query p) (minChars_of (options p))"
      using assms(3) h0(1) by (auto elim!: mount_Inr simp add: mount_controller_fresh)
    then show "searches (memo h) = []"
      using h0(1) \<open>h = h0\<close> by (auto elim!: mount_Inr simp add: compute_results_short)
  qed
  have 5: "\<forall>h1. evs \<noteq> [] \<and> reaches lib p (butlast evs) h1 \<longrightarrow> searches (memo h) = searches (memo h1)"
  proof (intro allI impI)
    fix h1 assume a: "evs \<noteq> [] \<and> reaches lib p (butlast evs) h1"
    then have "hook_run lib (butlast evs) h0 = Inr h1"
      using h0(1) by (simp add: reaches_def)
    moreover have "evs = butlast evs @ [last evs]" using a by simp
    ultimately have "hook_step lib h1 (last evs) = Inr h"
      using h0(2) hook_run_snoc [of lib "butlast evs" "last evs" h0] by simp
    then show "searches (memo h) = searches (memo h1)"
      using assms(3) by (rule hook_step_no_search)
  qed
  show ?thesis using 1 2 3 4 5 by blast
qed

theorem short_query_returns_items_witness:
  "reaches demo_lib (demo_props ''ef'') [Rerender (demo_props '' ''), Wait 200]
       (demo_state ''ef'' [Rerender (demo_props '' ''), Wait 200])
   \<and> items_immutable (items (demo_props ''ef'')) [Rerender (demo_props '' ''), Wait 200]
   \<and> debouncedQuery (ctrl (demo_state ''ef'' [Rerender (demo_props '' ''), Wait 200])) = []
   \<and> out_results (hook_output (demo_state ''ef'' [Rerender (demo_props '' ''), Wait 200]))
       = [ascii ''efferalgan'', ascii ''ef'', ascii ''doliprane'']
   \<and> out_fuzzyResults (hook_output (demo_state ''ef'' [Rerender (demo_props '' ''), Wait 200]))
       = map unranked [ascii ''efferalgan'', ascii ''ef'', ascii ''doliprane'']
   \<and> \<not> out_isFuzzyMode (hook_output (demo_state ''ef'' [Rerender (demo_props '' ''), Wait 200]))
   \<and> searches (memo (demo_state ''ef'' [Rerender (demo_props '' ''), Wait 200]))
       = searches (memo (demo_state ''ef'' [Rerender (demo_props '' '')]))"
proof -
  let ?evs = "[Rerender (demo_props '' ''), Wait 200]"
  let ?h = "demo_state ''ef'' ?evs"
  let ?h1 = "demo_state ''ef'' [Rerender (demo_props '' '')]"
  have r: "reaches demo_lib (demo_props ''ef'') ?evs ?h"
    by (simp add: reaches_def demo_state_def hook_eval ctrl_eval)
  have r1: "reaches demo_lib (demo_props ''ef'') (butlast ?evs) ?h1"
    by (simp add: reaches_def demo_state_def hook_eval ctrl_eval)
  have im: "items_immutable (items (demo_props ''ef'')) ?evs" by (simp add: demo_props_def)
  have dq: "debouncedQuery (ctrl ?h) = []"
    by (simp add: demo_state_def hook_eval ctrl_eval)
  have lp: "last_props ?h = demo_props '' ''"
    by (simp add: demo_state_def hook_eval ctrl_eval)
  have sh: "short_query (debouncedQuery (ctrl ?h)) (minChars_of (options (last_props ?h)))"
    by (simp add: dq short_query_def js_trim_def)
  have its: "content (items (last_props ?h)) = [ascii ''efferalgan'', ascii ''ef'', ascii ''doliprane'']"
    unfolding lp by (simp add: demo_props_def)
  have ne: "?evs \<noteq> []" by simp
  note inst = short_query_returns_items [OF r im sh]
  have "searches (memo ?h) = searches (memo ?h1)" using inst ne r1 by blast
  then show ?thesis using inst r im dq its by simp
qed

subsection \<open>Configuration\<close>

text \<open>
  Claim C5 reads: building the index with an empty set of keys or a threshold that is not
  positive fails at construction. The hook checks neither: it hands the keys and the
  threshold to the constructor of Fuse as they are. With a constructor that accepts every
  configuration, as the one of fuse.js does for these two, the first render with no key
  and the threshold 0 builds the index.
\<close>

theorem empty_keys_accepted_counterexample:
  "content (keys bad_config) = []
   \<and> threshold_of (options bad_config) = 0
   \<and> map_sum id (builds \<circ> memo) (useFuzzySearch_mount demo_lib bad_config) = Inr 1
   \<and> map_sum id (fuse_memo \<circ> memo) (useFuzzySearch_mount demo_lib bad_config) = Inr (1, [ascii ''ef''])"
  by (simp add: bad_config_def hook_eval ctrl_eval)

text \<open>
  Claim C5, as the code has it. The hook adds no check of its own to the construction of
  the index: a render fails exactly when it constructs (always at the first render, later
  when \<^verbatim>\<open>items\<close>, the keys or the threshold have changed) and the constructor of Fuse
  fails on the items and the options it is given, and it fails with that error; the keys
  and the threshold in these options are those of the call.
\<close>

theorem construction_error_is_the_engines:
  "(useFuzzySearch_mount lib p = Inl e \<longleftrightarrow>
      new_Fuse lib (content (items p)) (fuse_options (content (keys p)) (threshold_of (options p))) = Inl e)
   \<and> (useFuzzySearch lib p h = Inl e \<longleftrightarrow>
      fuse_memo_deps (memo h) \<noteq> fuse_deps_of p
      \<and> new_Fuse lib (content (items p)) (fuse_options (content (keys p)) (threshold_of (options p))) = Inl e)
   \<and> fo_keys (fuse_options (content (keys p)) (threshold_of (options p))) = content (keys p)
   \<and> fo_threshold (fuse_options (content (keys p)) (threshold_of (options p))) = threshold_of (options p)"
  by (auto simp add: useFuzzySearch_mount_def useFuzzySearch_def use_fuse_def fuse_options_def Let_def
      split: sum.splits prod.splits)

theorem construction_error_is_the_engines_witness:
  "new_Fuse demo_lib (content (items bad_config))
      (fuse_options (content (keys bad_config)) (threshold_of (options bad_config))) \<noteq> Inl ''error''
   \<and> useFuzzySearch_mount demo_lib bad_config \<noteq> Inl ''error''"
proof -
  have "new_Fuse demo_lib (content (items bad_config))
      (fuse_options (content (keys bad_config)) (threshold_of (options bad_config))) \<noteq> Inl ''error''"
    by (simp add: demo_lib_def)
  then show ?thesis
    using construction_error_is_the_engines [of demo_lib bad_config "''error''"] by simp
qed

subsection \<open>The first render\<close>

text \<open>
  Claim C10 reads: at the first render the committed query is the raw query as passed,
  and a hook created with a non-empty raw query queries the index at once with that text,
  not trimmed. The committed query is the raw one; what is sent to the index is its
  trimmed text: with the raw query \<open>ef\<close> between two spaces the index is asked for \<open>ef\<close>.
  And with the raw query \<open>e\<close>, shorter than \<^verbatim>\<open>minChars\<close>, the index is not asked.
\<close>

theorem initial_search_trimmed_counterexample:
  "map_sum id (debouncedQuery \<circ> ctrl) (useFuzzySearch_mount demo_lib (demo_props '' ef '')) = Inr (ascii '' ef '')
   \<and> map_sum id (searches \<circ> memo) (useFuzzySearch_mount demo_lib (demo_props '' ef '')) = Inr [ascii ''ef'']
   \<and> ascii ''ef'' \<noteq> ascii '' ef ''
   \<and> map_sum id (searches \<circ> memo) (useFuzzySearch_mount demo_lib (demo_props ''e'')) = Inr []"
  by (simp add: hook_eval ctrl_eval)

text \<open>
  Claim C10, as the code has it. At the first render, and for as long as less than
  \<^verbatim>\<open>debounceMs\<close> has passed, the committed query is the raw query as passed, not
  trimmed, and nothing has been committed by a timer. The first render queries the index
  at once exactly when the trimmed raw query is not empty and has at least \<^verbatim>\<open>minChars\<close>
  characters, and then with the trimmed text.
\<close>

theorem committed_query_initially_raw:
  assumes "useFuzzySearch_mount lib p = Inr h"
  shows "debouncedQuery (ctrl h) = query p
       \<and> out_debouncedQuery (hook_output h) = query p
       \<and> commits (ctrl h) = []
       \<and> searches (memo h) =
           (if short_query (query p) (minChars_of (options p)) then [] else [js_trim (query p)])
       \<and> (\<forall>d h'. d < nat (debounceMs_of (options p)) \<and> hook_step lib h (Wait d) = Inr h' \<longrightarrow>
             debouncedQuery (ctrl h') = query p \<and> commits (ctrl h') = []
             \<and> searches (memo h') = searches (memo h))"
proof -
  let ?dm = "debounceMs_of (options p)" and ?mc = "minChars_of (options p)"
  obtain idx where h: "h = \<lparr>ctrl = mount_controller (query p) ?dm ?mc,
              memo = \<lparr>fuse_memo_deps = fuse_deps_of p, fuse_memo = (1, idx),
                      results_memo_deps = (1, query p, addr (items p), ?mc),
                      results_memo = fst (compute_results lib idx (content (items p)) (query p) ?mc),
                      builds = 1,
                      searches = snd (compute_results lib idx (content (items p)) (query p) ?mc)\<rparr>,
              last_props = p\<rparr>"
    using assms by (rule mount_Inr)
  have 1: "debouncedQuery (ctrl h) = query p" "commits (ctrl h) = []"
    by (simp_all add: h mount_controller_fresh)
  have 2: "out_debouncedQuery (hook_output h) = query p"
    using 1 by (simp add: hook_output_def Let_def)
  have 3: "searches (memo h) = (if short_query (query p) ?mc then [] else [js_trim (query p)])"
    by (simp add: h compute_results_def short_query_def Let_def)
  have 4: "\<forall>d h'. d < nat ?dm \<and> hook_step lib h (Wait d) = Inr h' \<longrightarrow>
             debouncedQuery (ctrl h') = query p \<and> commits (ctrl h') = []
             \<and> searches (memo h') = searches (memo h)"
  proof (intro allI impI)
    fix d h' assume a: "d < nat ?dm \<and> hook_step lib h (Wait d) = Inr h'"
    let ?c = "mount_controller (query p) ?dm ?mc"
    have adv: "advance d ?c = ?c\<lparr>clock := clock ?c + d\<rparr>"
    proof (cases "suspended (query p) ?mc")
      case True
      then have "timers ?c = []"
        by (simp add: mount_controller_def effect_def suspended_def Let_def)
      then show ?thesis by (rule advance_idle)
    next
      case False
      then have t: "timers ?c = [\<lparr>t_id = 1, t_due = nat ?dm, t_query = js_trim (query p)\<rparr>]"
        by (auto simp add: mount_controller_def effect_def suspended_def Let_def)
      have "clock ?c + d < t_due \<lparr>t_id = 1, t_due = nat ?dm, t_query = js_trim (query p)\<rparr>"
        using a by (simp add: mount_controller_fresh)
      then show ?thesis using advance_pending [OF t] by simp
    qed
    have "useFuzzySearch lib p (h\<lparr>ctrl := advance d (ctrl h)\<rparr>) = Inr h'"
      using a by (simp add: hook_advance_def h)
    then have "h' = \<lparr>ctrl = commit_effect (query p) ?dm ?mc (advance d ?c),
          memo = use_results lib p (debouncedQuery (advance d ?c)) (memo h),
          last_props = p\<rparr>"
      by (simp add: useFuzzySearch_hit h)
    then show "debouncedQuery (ctrl h') = query p \<and> commits (ctrl h') = []
             \<and> searches (memo h') = searches (memo h)"
      using adv
      by (simp add: commit_effect_debouncedQuery mount_controller_fresh use_results_unfold
          results_deps_of_def h commit_effect_def mount_controller_def effect_def Let_def)
  qed
  show ?thesis using 1 2 3 4 by blast
qed

theorem committed_query_initially_raw_witness:
  "\<exists>h. useFuzzySearch_mount demo_lib (demo_props '' ef '') = Inr h
     \<and> debouncedQuery (ctrl h) = ascii '' ef ''
     \<and> out_debouncedQuery (hook_output h) = ascii '' ef ''
     \<and> commits (ctrl h) = []
     \<and> searches (memo h) = [ascii ''ef'']"
proof -
  obtain h where h: "useFuzzySearch_mount demo_lib (demo_props '' ef '') = Inr h"
    using demo_mount by blast
  have q: "query (demo_props '' ef '') = ascii '' ef ''" by (simp add: demo_props_def)
  have s: "\<not> short_query (query (demo_props '' ef '')) (minChars_of (options (demo_props '' ef '')))"
    "js_trim (query (demo_props '' ef '')) = ascii ''ef''"
    by (simp_all add: demo_props_def short_query_def minChars_of_def ctrl_eval)
  show ?thesis
    using committed_query_initially_raw [OF h] h q s by auto
qed

subsection \<open>A raw query below the minimum length\<close>

text \<open>
  Claim C8. Whenever the trimmed raw query is not empty and shorter than \<^verbatim>\<open>minChars\<close>,
  the hook neither starts nor resolves a delay, and the committed query and the flag keep
  the values they had, until the raw query changes again: from any state the hook reaches,
  the render with such a raw query, and after it any renders with the same arguments and
  any passing of time, go through and leave what the hook returns (the results, the scored
  results, both flags and the committed query) as it was; no value is committed and no
  timer is pending. With \<^verbatim>\<open>minChars\<close> 2 the raw query \<open>e\<close> is such a query.
\<close>

theorem suspended_query_changes_nothing:
  assumes "reaches lib p evs h"
    and "suspended q (minChars_of (options (last_props h)))"
    and "list_all (keeps_props ((last_props h)\<lparr>query := q\<rparr>)) evs'"
  shows "\<exists>h'. hook_run lib (Rerender ((last_props h)\<lparr>query := q\<rparr>) # evs') h = Inr h'
            \<and> hook_output h' = hook_output h
            \<and> commits (ctrl h') = commits (ctrl h)
            \<and> timers (ctrl h') = []"
proof -
  let ?p1 = "(last_props h)\<lparr>query := q\<rparr>"
  let ?dm = "debounceMs_of (options (last_props h))" and ?mc = "minChars_of (options (last_props h))"
  let ?c1 = "commit_effect q ?dm ?mc (ctrl h)"
  let ?h1 = "\<lparr>ctrl = ?c1, memo = memo h, last_props = ?p1\<rparr>"
  have D: "deps_current h" using assms(1) by (rule reaches_deps_current)
  have I: "ctrl_inv (ctrl h)" using assms(1) by (rule reaches_ctrl_inv)
  have c1: "debouncedQuery ?c1 = debouncedQuery (ctrl h) \<and> isSearching ?c1 = isSearching (ctrl h)
       \<and> commits ?c1 = commits (ctrl h) \<and> timers ?c1 = [] \<and> effect_deps ?c1 = (q, ?dm, ?mc)"
    using I assms(2) by (rule suspended_render)
  have "fuse_memo_deps (memo h) = fuse_deps_of ?p1"
    using D by (simp add: deps_current_def fuse_deps_of_def)
  moreover have "use_results lib ?p1 (debouncedQuery (ctrl h)) (memo h) = memo h"
    using D by (simp add: deps_current_def use_results_unfold results_deps_of_def)
  ultimately have step: "hook_step lib h (Rerender ?p1) = Inr ?h1"
    by (simp add: useFuzzySearch_hit)
  have D1: "deps_current ?h1"
    using D c1 by (simp add: deps_current_def fuse_deps_of_def results_deps_of_def)
  have t1: "timers (ctrl ?h1) = []" and k1: "list_all (keeps_props (last_props ?h1)) evs'"
    using c1 assms(3) by simp_all
  obtain h' k where h': "hook_run lib evs' ?h1 = Inr h'" "memo h' = memo ?h1"
      "last_props h' = last_props ?h1" "ctrl h' = (ctrl ?h1)\<lparr>clock := k\<rparr>"
    using idle_run [OF D1 t1 k1, of lib] by blast
  have c: "ctrl h' = ?c1\<lparr>clock := k\<rparr>" using h'(4) by simp
  have f: "debouncedQuery (ctrl h') = debouncedQuery (ctrl h)" "isSearching (ctrl h') = isSearching (ctrl h)"
    "commits (ctrl h') = commits (ctrl h)" "timers (ctrl h') = []"
    using c1 by (simp_all add: c)
  have out: "hook_output h' = hook_output h"
    using h'(2,3) f by (simp add: hook_output_def Let_def)
  note cm = f(3,4)
  have "hook_run lib (Rerender ?p1 # evs') h = Inr h'" using step h'(1) by simp
  then show ?thesis using out cm by blast
qed

theorem suspended_query_changes_nothing_witness:
  "reaches demo_lib (demo_props ''ef'') [Wait 200] (demo_state ''ef'' [Wait 200])
   \<and> suspended (ascii ''e'') (minChars_of (options (last_props (demo_state ''ef'' [Wait 200]))))
   \<and> list_all (keeps_props ((last_props (demo_state ''ef'' [Wait 200]))\<lparr>query := ascii ''e''\<rparr>))
        [Wait 1000, Rerender (demo_props ''e''), Wait 5]
   \<and> (\<exists>h'. hook_run demo_lib
              [Rerender (demo_props ''e''), Wait 1000, Rerender (demo_props ''e''), Wait 5]
              (demo_state ''ef'' [Wait 200]) = Inr h'
         \<and> hook_output h' = hook_output (demo_state ''ef'' [Wait 200])
         \<and> out_debouncedQuery (hook_output h') = ascii ''ef''
         \<and> out_results (hook_output h') = [ascii ''efferalgan'', ascii ''ef'']
         \<and> out_isSearching (hook_output h') = False
         \<and> timers (ctrl h') = [])"
proof -
  let ?h = "demo_state ''ef'' [Wait 200]"
  have r: "reaches demo_lib (demo_props ''ef'') [Wait 200] ?h"
    by (simp add: reaches_def demo_state_def hook_eval ctrl_eval)
  have lp: "last_props ?h = demo_props ''ef''"
    by (simp add: demo_state_def hook_eval ctrl_eval)
  have p1: "(last_props ?h)\<lparr>query := ascii ''e''\<rparr> = demo_props ''e''"
    unfolding lp by (simp add: demo_props_def)
  have sus: "suspended (ascii ''e'') (minChars_of (options (last_props ?h)))"
    unfolding lp by (simp add: demo_props_def minChars_of_def ctrl_eval)
  have keeps: "list_all (keeps_props ((last_props ?h)\<lparr>query := ascii ''e''\<rparr>))
        [Wait 1000, Rerender (demo_props ''e''), Wait 5]"
    unfolding p1 by simp
  have out: "out_debouncedQuery (hook_output ?h) = ascii ''ef''"
    "out_results (hook_output ?h) = [ascii ''efferalgan'', ascii ''ef'']"
    "out_isSearching (hook_output ?h) = False"
    by (simp_all add: demo_state_def hook_eval ctrl_eval)
  show ?thesis
    using suspended_query_changes_nothing [OF r sus keeps] r sus keeps out unfolding p1 by auto
qed

end
